theory Spec2Isabelle
  imports Complex_Main "HOL-Library.Multiset"
begin

section \<open>JavaScript numbers\<close>

text \<open>
  A JavaScript number is an IEEE 754 binary64 value.  \<open>Fin s m k\<close> is the finite value
  \<open>(-1)\<^sup>s * m * 2\<^sup>k\<^sup>-\<^sup>1\<^sup>0\<^sup>7\<^sup>4\<close>: every finite double is an integer multiple of the smallest
  subnormal \<open>2\<^sup>-\<^sup>1\<^sup>0\<^sup>7\<^sup>4\<close>, so the exponent offset \<open>k\<close> is a natural number.  \<open>Fin False 0 k\<close> is
  \<open>+0\<close> and \<open>Fin True 0 k\<close> is \<open>-0\<close>.  The representation is not normalised; comparison and
  arithmetic go through the denoted value.
\<close>

datatype jsnum = NaN | PInf | NInf | Fin bool nat nat

definition js_nat :: "nat \<Rightarrow> jsnum" where
  "js_nat n = Fin False n 1074"

definition js_inf :: "bool \<Rightarrow> jsnum" where
  "js_inf s = (if s then NInf else PInf)"

definition signed :: "bool \<Rightarrow> nat \<Rightarrow> int" where
  "signed s m = (if s then - int m else int m)"

fun fin_val :: "jsnum \<Rightarrow> rat option" where
  "fin_val (Fin s m k) =
     Some (if 1074 \<le> k then of_int (signed s m) * 2 ^ (k - 1074)
           else of_int (signed s m) / 2 ^ (1074 - k))"
| "fin_val _ = None"

fun is_neg :: "jsnum \<Rightarrow> bool" where
  "is_neg NInf = True"
| "is_neg (Fin s _ _) = s"
| "is_neg _ = False"

fun is_zero :: "jsnum \<Rightarrow> bool" where
  "is_zero (Fin _ m _) = (m = 0)"
| "is_zero _ = False"

subsection \<open>Rounding to nearest, ties to even\<close>

text \<open>\<open>bits n\<close> is the length of the binary numeral of \<open>n\<close>.\<close>

fun bits :: "nat \<Rightarrow> nat" where
  "bits n = (if n = 0 then 0 else Suc (bits (n div 2)))"

declare bits.simps [simp del]

definition round_half_even :: "nat \<Rightarrow> nat \<Rightarrow> nat" where
  "round_half_even num den =
     (let d = num div den; r = num mod den
      in if 2 * r < den then d
         else if den < 2 * r then d + 1
         else if even d then d else d + 1)"

text \<open>\<open>floor_log2 p q\<close> is the integer \<open>l\<close> with \<open>2\<^sup>l \<le> p / q < 2\<^sup>l\<^sup>+\<^sup>1\<close>, for positive \<open>p\<close>, \<open>q\<close>.\<close>

definition floor_log2 :: "nat \<Rightarrow> nat \<Rightarrow> int" where
  "floor_log2 p q =
     (let t = int (bits p) - int (bits q)
      in if (if 0 \<le> t then q * 2 ^ nat t \<le> p else q \<le> p * 2 ^ nat (- t))
         then t else t - 1)"

text \<open>
  \<open>round_mag p q e\<close> rounds the exact magnitude \<open>p / q * 2\<^sup>e\<close> (in units of \<open>2\<^sup>-\<^sup>1\<^sup>0\<^sup>7\<^sup>4\<close>) to
  53 significant bits, or to a multiple of the unit in the subnormal range.  The result
  \<open>Some (m, k)\<close> is the magnitude \<open>m * 2\<^sup>k\<close>, with \<open>m < 2\<^sup>5\<^sup>3\<close>; \<open>None\<close> is overflow, a result
  of at least \<open>2\<^sup>1\<^sup>0\<^sup>2\<^sup>4\<close>.
\<close>

definition round_mag :: "nat \<Rightarrow> nat \<Rightarrow> int \<Rightarrow> (nat \<times> nat) option" where
  "round_mag p q e =
     (let l = floor_log2 p q + e;
          k = (if 52 < l then l - 52 else 0);
          sh = e - k;
          m = (if 0 \<le> sh then round_half_even (p * 2 ^ nat sh) q
               else round_half_even p (q * 2 ^ nat (- sh)))
      in if 2098 < bits m + nat k then None
         else if m = 2 ^ 53 then Some (2 ^ 52, nat k + 1)
         else Some (m, nat k))"

definition mk :: "bool \<Rightarrow> (nat \<times> nat) option \<Rightarrow> jsnum" where
  "mk s r = (case r of None \<Rightarrow> js_inf s | Some (m, k) \<Rightarrow> Fin s m k)"

subsection \<open>Arithmetic and comparison\<close>

fun js_neg :: "jsnum \<Rightarrow> jsnum" where
  "js_neg NaN = NaN"
| "js_neg PInf = NInf"
| "js_neg NInf = PInf"
| "js_neg (Fin s m k) = Fin (\<not> s) m k"

fun js_add :: "jsnum \<Rightarrow> jsnum \<Rightarrow> jsnum" where
  "js_add NaN _ = NaN"
| "js_add _ NaN = NaN"
| "js_add PInf NInf = NaN"
| "js_add NInf PInf = NaN"
| "js_add PInf _ = PInf"
| "js_add _ PInf = PInf"
| "js_add NInf _ = NInf"
| "js_add _ NInf = NInf"
| "js_add (Fin s1 m1 k1) (Fin s2 m2 k2) =
     (if m1 = 0 \<and> m2 = 0 then Fin (s1 \<and> s2) 0 0
      else if m1 = 0 then Fin s2 m2 k2
      else if m2 = 0 then Fin s1 m1 k1
      else
        (let k = min k1 k2;
             n = signed s1 m1 * 2 ^ (k1 - k) + signed s2 m2 * 2 ^ (k2 - k)
         in if n = 0 then Fin False 0 0
            else mk (n < 0) (round_mag (nat \<bar>n\<bar>) 1 (int k))))"

definition js_sub :: "jsnum \<Rightarrow> jsnum \<Rightarrow> jsnum" where
  "js_sub a b = js_add a (js_neg b)"

fun js_mul :: "jsnum \<Rightarrow> jsnum \<Rightarrow> jsnum" where
  "js_mul NaN _ = NaN"
| "js_mul _ NaN = NaN"
| "js_mul (Fin s1 m1 k1) (Fin s2 m2 k2) =
     (if m1 = 0 \<or> m2 = 0 then Fin (s1 \<noteq> s2) 0 0
      else mk (s1 \<noteq> s2) (round_mag (m1 * m2) 1 (int k1 + int k2 - 1074)))"
| "js_mul a b =
     (if is_zero a \<or> is_zero b then NaN else js_inf (is_neg a \<noteq> is_neg b))"

fun js_div :: "jsnum \<Rightarrow> jsnum \<Rightarrow> jsnum" where
  "js_div NaN _ = NaN"
| "js_div _ NaN = NaN"
| "js_div (Fin s1 m1 k1) (Fin s2 m2 k2) =
     (if m2 = 0 then (if m1 = 0 then NaN else js_inf (s1 \<noteq> s2))
      else if m1 = 0 then Fin (s1 \<noteq> s2) 0 0
      else mk (s1 \<noteq> s2) (round_mag m1 m2 (int k1 - int k2 + 1074)))"
| "js_div (Fin s1 _ _) b = Fin (s1 \<noteq> is_neg b) 0 0"
| "js_div a (Fin s2 _ _) = js_inf (is_neg a \<noteq> s2)"
| "js_div _ _ = NaN"

fun js_lt :: "jsnum \<Rightarrow> jsnum \<Rightarrow> bool" where
  "js_lt NaN _ = False"
| "js_lt _ NaN = False"
| "js_lt PInf _ = False"
| "js_lt _ NInf = False"
| "js_lt _ PInf = True"
| "js_lt NInf _ = True"
| "js_lt (Fin s1 m1 k1) (Fin s2 m2 k2) =
     (let k = min k1 k2
      in signed s1 m1 * 2 ^ (k1 - k) < signed s2 m2 * 2 ^ (k2 - k))"

definition js_gt :: "jsnum \<Rightarrow> jsnum \<Rightarrow> bool" where
  "js_gt a b = js_lt b a"

definition js_le :: "jsnum \<Rightarrow> jsnum \<Rightarrow> bool" where
  "js_le a b = (a \<noteq> NaN \<and> b \<noteq> NaN \<and> \<not> js_lt b a)"

text \<open>
  \<open>ival\<close> is the value of a finite number in units of \<open>2\<^sup>-\<^sup>1\<^sup>0\<^sup>7\<^sup>4\<close>.  Two numbers are the
  same number when they are the same value: \<open>+0\<close> and \<open>-0\<close> are, and so are two
  representations of one value.
\<close>

fun ival :: "jsnum \<Rightarrow> int" where
  "ival (Fin s m k) = signed s m * 2 ^ k"
| "ival _ = 0"

definition same_number :: "jsnum \<Rightarrow> jsnum \<Rightarrow> bool" where
  "same_number a b = (a = b \<or> (a \<noteq> NaN \<and> b \<noteq> NaN \<and> \<not> js_lt a b \<and> \<not> js_lt b a))"

text \<open>The sign of a number: 1, -1, or 0 for a zero and for \<open>NaN\<close>.\<close>

definition sign_of :: "jsnum \<Rightarrow> int" where
  "sign_of x = (case x of NaN \<Rightarrow> 0 | PInf \<Rightarrow> 1 | NInf \<Rightarrow> - 1 | Fin s m k \<Rightarrow> sgn (signed s m))"

text \<open>\<open>undefined\<close>, the value of a property that is absent, converts to \<open>NaN\<close>.\<close>

definition toNumber :: "jsnum option \<Rightarrow> jsnum" where
  "toNumber v = (case v of None \<Rightarrow> NaN | Some x \<Rightarrow> x)"

section \<open>The metrics of one GPU (\<open>src/app.js\<close>)\<close>

text \<open>
  A GPU record as the loader delivers it from JSON.  The name and the algorithm are
  strings, as the filters take them to be.  A numeric field holds a number or is absent
  (\<open>None\<close>, read as \<open>undefined\<close>).  The field \<open>power\<close> of the source is \<open>power_w\<close> here.
\<close>

record gpu =
  name :: string
  algo :: string
  hashrate :: "jsnum option"
  power_w :: "jsnum option"
  priceArs :: "jsnum option"
  dailyProfitUsd :: "jsnum option"

record metrics =
  efficiency :: jsnum
  dailyRevenueArs :: jsnum
  dailyEnergyCostArs :: jsnum
  dailyNetArs :: jsnum
  roiDays :: jsnum
  score :: jsnum

definition USD_ARS :: jsnum where
  "USD_ARS = js_nat 1000"

definition ENERGY_ARS_PER_KWH :: jsnum where
  "ENERGY_ARS_PER_KWH = js_nat 80"

definition gpuMetrics :: "gpu \<Rightarrow> metrics" where
  "gpuMetrics g =
     (let efficiency = js_div (toNumber (hashrate g)) (toNumber (power_w g));
          dailyRevenueArs = js_mul (toNumber (dailyProfitUsd g)) USD_ARS;
          dailyEnergyKwh = js_mul (js_div (toNumber (power_w g)) (js_nat 1000)) (js_nat 24);
          dailyEnergyCostArs = js_mul dailyEnergyKwh ENERGY_ARS_PER_KWH;
          dailyNetArs = js_sub dailyRevenueArs dailyEnergyCostArs;
          roiDays = (if js_gt dailyNetArs (js_nat 0)
                     then js_div (toNumber (priceArs g)) dailyNetArs else PInf);
          score = js_mul dailyNetArs efficiency
      in \<lparr>efficiency = efficiency,
          dailyRevenueArs = dailyRevenueArs,
          dailyEnergyCostArs = dailyEnergyCostArs,
          dailyNetArs = dailyNetArs,
          roiDays = roiDays,
          score = score\<rparr>)"

text \<open>The example record of the specification, and the same record with no daily profit.\<close>

definition example_gpu :: gpu where
  "example_gpu =
     \<lparr>name = ''X'', algo = ''eth'',
      hashrate = Some (js_nat 100), power_w = Some (js_nat 200),
      priceArs = Some (js_nat 500000), dailyProfitUsd = Some (js_nat 1)\<rparr>"

definition example_gpu_no_profit :: gpu where
  "example_gpu_no_profit = example_gpu\<lparr>dailyProfitUsd := Some (js_nat 0)\<rparr>"

text \<open>
  The object \<open>gpuMetrics\<close> returns has exactly six properties.  \<open>metrics_prop m key\<close> is
  the property access \<open>m.key\<close>: a property the object does not have reads as \<open>undefined\<close>
  (\<open>None\<close>).
\<close>

definition metrics_prop :: "metrics \<Rightarrow> string \<Rightarrow> jsnum option" where
  "metrics_prop m key =
     (if key = ''efficiency'' then Some (efficiency m)
      else if key = ''dailyRevenueArs'' then Some (dailyRevenueArs m)
      else if key = ''dailyEnergyCostArs'' then Some (dailyEnergyCostArs m)
      else if key = ''dailyNetArs'' then Some (dailyNetArs m)
      else if key = ''roiDays'' then Some (roiDays m)
      else if key = ''score'' then Some (score m)
      else None)"

section \<open>Strings and the library\<close>

text \<open>
  A string is a list of code units; \<open>char\<close> has the code units below 256, the Latin-1
  characters.  The functions of the JavaScript library that the two scripts call are
  parameters of the model, one field each: \<open>String.prototype.toLowerCase\<close>,
  \<open>String.prototype.trim\<close>, the conversion of a string to a number, the conversion of a number
  to a string, \<open>Number.prototype.toFixed\<close> with two digits, and \<open>Math.round\<close>.  What is proved
  for every \<open>lib\<close> holds whatever these functions return.
\<close>

record builtins =
  toLowerCase :: "string \<Rightarrow> string"
  trim :: "string \<Rightarrow> string"
  stringToNumber :: "string \<Rightarrow> jsnum"
  numberToString :: "jsnum \<Rightarrow> string"
  toFixed2 :: "jsnum \<Rightarrow> string"
  mathRound :: "jsnum \<Rightarrow> jsnum"

text \<open>
  For the examples: \<open>toLowerCase\<close> and \<open>trim\<close> as the engine computes them on Latin-1 text.
  The capital letters are \<open>A\<close> to \<open>Z\<close> and the codes \<open>0xC0\<close> to \<open>0xDE\<close> without \<open>0xD7\<close>, each 32
  below its small letter; the white space and line terminators are the codes \<open>0x09\<close> to
  \<open>0x0D\<close>, \<open>0x20\<close> and \<open>0xA0\<close>.
\<close>

definition latin1_upper :: string where
  "latin1_upper =
     ''ABCDEFGHIJKLMNOPQRSTUVWXYZ'' @
     [CHR 0xC0, CHR 0xC1, CHR 0xC2, CHR 0xC3, CHR 0xC4, CHR 0xC5, CHR 0xC6, CHR 0xC7,
      CHR 0xC8, CHR 0xC9, CHR 0xCA, CHR 0xCB, CHR 0xCC, CHR 0xCD, CHR 0xCE, CHR 0xCF,
      CHR 0xD0, CHR 0xD1, CHR 0xD2, CHR 0xD3, CHR 0xD4, CHR 0xD5, CHR 0xD6,
      CHR 0xD8, CHR 0xD9, CHR 0xDA, CHR 0xDB, CHR 0xDC, CHR 0xDD, CHR 0xDE]"

definition latin1_lower :: string where
  "latin1_lower =
     ''abcdefghijklmnopqrstuvwxyz'' @
     [CHR 0xE0, CHR 0xE1, CHR 0xE2, CHR 0xE3, CHR 0xE4, CHR 0xE5, CHR 0xE6, CHR 0xE7,
      CHR 0xE8, CHR 0xE9, CHR 0xEA, CHR 0xEB, CHR 0xEC, CHR 0xED, CHR 0xEE, CHR 0xEF,
      CHR 0xF0, CHR 0xF1, CHR 0xF2, CHR 0xF3, CHR 0xF4, CHR 0xF5, CHR 0xF6,
      CHR 0xF8, CHR 0xF9, CHR 0xFA, CHR 0xFB, CHR 0xFC, CHR 0xFD, CHR 0xFE]"

definition lower_char :: "char \<Rightarrow> char" where
  "lower_char c = (case map_of (zip latin1_upper latin1_lower) c of None \<Rightarrow> c | Some d \<Rightarrow> d)"

definition latin1_toLowerCase :: "string \<Rightarrow> string" where
  "latin1_toLowerCase s = map lower_char s"

definition is_space :: "char \<Rightarrow> bool" where
  "is_space c =
     (c \<in> set [CHR 0x09, CHR 0x0A, CHR 0x0B, CHR 0x0C, CHR 0x0D, CHR 0x20, CHR 0xA0])"

definition latin1_trim :: "string \<Rightarrow> string" where
  "latin1_trim s = rev (dropWhile is_space (rev (dropWhile is_space s)))"

text \<open>\<open>String.prototype.includes\<close> (here \<open>str_includes\<close>): the argument occurs as a substring.\<close>

fun starts_with :: "string \<Rightarrow> string \<Rightarrow> bool" where
  "starts_with _ [] = True"
| "starts_with [] (_ # _) = False"
| "starts_with (c # cs) (d # ds) = (c = d \<and> starts_with cs ds)"

fun str_includes :: "string \<Rightarrow> string \<Rightarrow> bool" where
  "str_includes [] sub = (sub = [])"
| "str_includes (c # cs) sub = (starts_with (c # cs) sub \<or> str_includes cs sub)"

text \<open>The relational operator \<open><\<close> on two strings compares them by code units.\<close>

fun str_lt :: "string \<Rightarrow> string \<Rightarrow> bool" where
  "str_lt _ [] = False"
| "str_lt [] (_ # _) = True"
| "str_lt (c # cs) (d # ds) =
     ((of_char c :: nat) < of_char d \<or> (c = d \<and> str_lt cs ds))"

section \<open>Filtering and sorting (\<open>src/app.js\<close>)\<close>

text \<open>
  \<open>Array.prototype.sort\<close> with a comparison function.  A comparator result of \<open>NaN\<close> counts as
  \<open>+0\<close> (\<open>sortCompare\<close>).  For a consistent comparison function ECMAScript fixes the result:
  the elements in the order of the comparator, elements that compare equal in their
  original order.  \<open>array_sort\<close> is the stable insertion sort, which computes that result: an
  element moves behind a later one only when the comparator result for the pair is greater
  than zero.  Where the comparison function is not consistent the language leaves the order
  to the engine; \<open>array_sort\<close> is then one admissible result, and \<open>v8_sort\<close> below is the result
  of the engine V8.
\<close>

definition sortCompare :: "('a \<Rightarrow> 'a \<Rightarrow> jsnum) \<Rightarrow> 'a \<Rightarrow> 'a \<Rightarrow> jsnum" where
  "sortCompare comparefn x y = (let v = comparefn x y in if v = NaN then js_nat 0 else v)"

fun insert_by :: "('a \<Rightarrow> 'a \<Rightarrow> jsnum) \<Rightarrow> 'a \<Rightarrow> 'a list \<Rightarrow> 'a list" where
  "insert_by comparefn x [] = [x]"
| "insert_by comparefn x (y # ys) =
     (if js_gt (sortCompare comparefn x y) (js_nat 0) then y # insert_by comparefn x ys
      else x # y # ys)"

definition array_sort :: "('a \<Rightarrow> 'a \<Rightarrow> jsnum) \<Rightarrow> 'a list \<Rightarrow> 'a list" where
  "array_sort comparefn xs = foldr (insert_by comparefn) xs []"

text \<open>
  The sort of the engine V8 (Chrome, Node.js) on an array of fewer than 64 elements, none of
  them \<open>undefined\<close>.  The minimal run length of its merge sort is then the length of the
  array, so that the sort is one call of \<open>CountAndMakeRun\<close> and one of \<open>BinaryInsertionSort\<close>
  and nothing is merged.  \<open>CountAndMakeRun\<close> takes the longest run at the start of the
  array: a strictly descending one when the comparator result for the second and the first
  element is below zero, which it reverses in place, and a non-descending one otherwise.
  \<open>BinaryInsertionSort\<close> then inserts each later element \<open>workArray[start]\<close> into the sorted part
  before it, at the index a binary search finds.
\<close>

fun run_rest :: "('a \<Rightarrow> 'a \<Rightarrow> jsnum) \<Rightarrow> bool \<Rightarrow> 'a \<Rightarrow> 'a list \<Rightarrow> nat" where
  "run_rest comparefn isDescending previousElement [] = 0"
| "run_rest comparefn isDescending previousElement (currentElement # rest) =
     (let order = sortCompare comparefn currentElement previousElement
      in if isDescending then
           (if js_le (js_nat 0) order then 0
            else Suc (run_rest comparefn isDescending currentElement rest))
         else
           (if js_lt order (js_nat 0) then 0
            else Suc (run_rest comparefn isDescending currentElement rest)))"

definition countAndMakeRun :: "('a \<Rightarrow> 'a \<Rightarrow> jsnum) \<Rightarrow> 'a list \<Rightarrow> nat \<times> 'a list" where
  "countAndMakeRun comparefn workArray =
     (case workArray of
        elementHigh # elementLow # rest \<Rightarrow>
          (let order = sortCompare comparefn elementLow elementHigh;
               isDescending = js_lt order (js_nat 0);
               runLength = 2 + run_rest comparefn isDescending elementLow rest
           in (runLength,
               if isDescending then rev (take runLength workArray) @ drop runLength workArray
               else workArray))
      | _ \<Rightarrow> (length workArray, workArray))"

function binarySearch :: "('a \<Rightarrow> 'a \<Rightarrow> jsnum) \<Rightarrow> 'a \<Rightarrow> 'a list \<Rightarrow> nat \<Rightarrow> nat \<Rightarrow> nat" where
  "binarySearch comparefn pivot workArray left right =
     (if left < right then
        (let mid = left + (right - left) div 2;
             order = sortCompare comparefn pivot (workArray ! mid)
         in if js_lt order (js_nat 0) then binarySearch comparefn pivot workArray left mid
            else binarySearch comparefn pivot workArray (mid + 1) right)
      else left)"
  by pat_completeness auto

termination binarySearch
  by (relation "measure (\<lambda>(comparefn, pivot, workArray, left, right). right - left)") auto

declare binarySearch.simps [simp del]

definition insertPivot :: "('a \<Rightarrow> 'a \<Rightarrow> jsnum) \<Rightarrow> 'a list \<Rightarrow> nat \<Rightarrow> 'a list" where
  "insertPivot comparefn workArray start =
     (let pivot = workArray ! start;
          left = binarySearch comparefn pivot workArray 0 start
      in take left workArray @ pivot # drop left (take start workArray)
         @ drop (Suc start) workArray)"

definition binaryInsertionSort ::
  "('a \<Rightarrow> 'a \<Rightarrow> jsnum) \<Rightarrow> 'a list \<Rightarrow> nat \<Rightarrow> nat \<Rightarrow> 'a list" where
  "binaryInsertionSort comparefn workArray startArg high =
     fold (\<lambda>start workArray. insertPivot comparefn workArray start) [startArg..<high] workArray"

definition v8_sort :: "('a \<Rightarrow> 'a \<Rightarrow> jsnum) \<Rightarrow> 'a list \<Rightarrow> 'a list" where
  "v8_sort comparefn xs =
     (if length xs < 2 then xs
      else
        (let (currentRunLength, workArray) = countAndMakeRun comparefn xs
         in binaryInsertionSort comparefn workArray currentRunLength (length xs)))"

text \<open>
  What ECMAScript asks of the sort, for a comparison function that is consistent on the
  elements of the array.  \<open>comes_before\<close> and \<open>comes_after\<close> are a comparator result below
  and above zero.  The comparison function is consistent on a set when the two agree on
  every pair (\<open>x\<close> comes before \<open>y\<close> exactly when \<open>y\<close> comes after \<open>x\<close>, and never both ways
  round) and not coming after is transitive.  Two elements have the same rank when neither
  comes after the other.  \<open>ys\<close> is the stable sort of \<open>xs\<close> when it has the same elements, no
  element comes after a later one, and the elements of one rank are in the order they have
  in \<open>xs\<close>.  \<open>sorted_prefix\<close> is the state of the array while \<open>BinaryInsertionSort\<close> runs: the
  first \<open>m\<close> elements are the stable sort of the first \<open>m\<close> elements of \<open>xs\<close>, and the rest is
  as in \<open>xs\<close>.
\<close>

definition comes_before :: "('a \<Rightarrow> 'a \<Rightarrow> jsnum) \<Rightarrow> 'a \<Rightarrow> 'a \<Rightarrow> bool" where
  "comes_before comparefn x y = js_lt (sortCompare comparefn x y) (js_nat 0)"

definition comes_after :: "('a \<Rightarrow> 'a \<Rightarrow> jsnum) \<Rightarrow> 'a \<Rightarrow> 'a \<Rightarrow> bool" where
  "comes_after comparefn x y = js_gt (sortCompare comparefn x y) (js_nat 0)"

definition consistent_on :: "('a \<Rightarrow> 'a \<Rightarrow> jsnum) \<Rightarrow> 'a set \<Rightarrow> bool" where
  "consistent_on comparefn S =
     ((\<forall>x\<in>S. \<forall>y\<in>S.
         (comes_before comparefn x y \<longleftrightarrow> comes_after comparefn y x)
         \<and> \<not> (comes_after comparefn x y \<and> comes_after comparefn y x))
      \<and> (\<forall>x\<in>S. \<forall>y\<in>S. \<forall>z\<in>S.
           \<not> comes_after comparefn x y \<and> \<not> comes_after comparefn y z
           \<longrightarrow> \<not> comes_after comparefn x z))"

definition same_rank :: "('a \<Rightarrow> 'a \<Rightarrow> jsnum) \<Rightarrow> 'a \<Rightarrow> 'a \<Rightarrow> bool" where
  "same_rank comparefn x y = (\<not> comes_after comparefn x y \<and> \<not> comes_after comparefn y x)"

definition stable_sort_of :: "('a \<Rightarrow> 'a \<Rightarrow> jsnum) \<Rightarrow> 'a list \<Rightarrow> 'a list \<Rightarrow> bool" where
  "stable_sort_of comparefn xs ys =
     (mset ys = mset xs
      \<and> sorted_wrt (\<lambda>x y. \<not> comes_after comparefn x y) ys
      \<and> (\<forall>k\<in>set xs. filter (same_rank comparefn k) ys = filter (same_rank comparefn k) xs))"

definition sorted_prefix :: "('a \<Rightarrow> 'a \<Rightarrow> jsnum) \<Rightarrow> 'a list \<Rightarrow> nat \<Rightarrow> 'a list \<Rightarrow> bool" where
  "sorted_prefix comparefn xs m workArray =
     (length workArray = length xs \<and> drop m workArray = drop m xs
      \<and> stable_sort_of comparefn (take m xs) (take m workArray))"

text \<open>
  The three controls of the page; each field is the \<open>value\<close> of the element, \<open>None\<close> when the
  element does not exist (the optional chain then yields \<open>undefined\<close>).  The local constants
  \<open>algo\<close> and \<open>sort\<close> of the source are \<open>algoValue\<close> and \<open>sortValue\<close> here.
\<close>

record controls =
  searchInput :: "string option"
  algoSelect :: "string option"
  sortSelect :: "string option"

text \<open>
  The comparison function of \<open>applyFilters\<close>.  \<open>ma\<close> and \<open>mb\<close> are metrics objects, so
  \<open>ma.hashrate\<close> and \<open>ma.priceArs\<close> are accesses to properties these objects do not have.
\<close>

definition compareGpus :: "string option \<Rightarrow> gpu \<Rightarrow> gpu \<Rightarrow> jsnum" where
  "compareGpus sortValue a b =
     (let ma = gpuMetrics a; mb = gpuMetrics b
      in if sortValue = Some ''hashrate'' then
           js_sub (toNumber (metrics_prop mb ''hashrate'')) (toNumber (metrics_prop ma ''hashrate''))
         else if sortValue = Some ''efficiency'' then
           js_sub (toNumber (metrics_prop mb ''efficiency''))
             (toNumber (metrics_prop ma ''efficiency''))
         else if sortValue = Some ''price'' then
           js_sub (toNumber (metrics_prop ma ''priceArs'')) (toNumber (metrics_prop mb ''priceArs''))
         else if sortValue = Some ''roi'' then
           js_sub (toNumber (metrics_prop ma ''roiDays'')) (toNumber (metrics_prop mb ''roiDays''))
         else
           js_sub (toNumber (metrics_prop mb ''score'')) (toNumber (metrics_prop ma ''score'')))"

text \<open>
  \<open>filterGpus\<close> is \<open>applyFilters\<close> up to the call of \<open>sort\<close>: the value of \<open>result\<close> after the
  two filters.  \<open>applyFilters\<close> sorts it; its value here is the array it hands to \<open>buildTable\<close>.
  The rendering that \<open>buildTable\<close> does with the array is not part of the model.
\<close>

definition filterGpus :: "builtins \<Rightarrow> gpu list \<Rightarrow> controls \<Rightarrow> gpu list" where
  "filterGpus lib gpus ui =
     (let search = map_option (\<lambda>v. trim lib (toLowerCase lib v)) (searchInput ui);
          algoValue = algoSelect ui;
          result = gpus;
          result = (case search of
                      None \<Rightarrow> result
                    | Some s \<Rightarrow>
                        if s = [] then result
                        else filter (\<lambda>g. str_includes (toLowerCase lib (name g)) s) result);
          result = (case algoValue of
                      None \<Rightarrow> result
                    | Some a \<Rightarrow>
                        if a = [] then result else filter (\<lambda>g. algo g = a) result)
      in result)"

definition applyFilters :: "builtins \<Rightarrow> gpu list \<Rightarrow> controls \<Rightarrow> gpu list" where
  "applyFilters lib gpus ui =
     (let sortValue = sortSelect ui;
          result = filterGpus lib gpus ui
      in array_sort (compareGpus sortValue) result)"

text \<open>\<open>applyFilters\<close> as V8 runs it on fewer than 64 records.\<close>

definition applyFilters_v8 :: "builtins \<Rightarrow> gpu list \<Rightarrow> controls \<Rightarrow> gpu list" where
  "applyFilters_v8 lib gpus ui =
     (let sortValue = sortSelect ui;
          result = filterGpus lib gpus ui
      in v8_sort (compareGpus sortValue) result)"

text \<open>
  The conditions of the two filters, as \<open>applyFilters\<close> applies them: the search text is
  lower-cased and trimmed, and a filter whose text is empty or whose control is absent
  keeps every record.
\<close>

definition name_filter :: "builtins \<Rightarrow> string option \<Rightarrow> gpu \<Rightarrow> bool" where
  "name_filter lib v g =
     (case v of
        None \<Rightarrow> True
      | Some s \<Rightarrow>
          trim lib (toLowerCase lib s) = []
          \<or> str_includes (toLowerCase lib (name g)) (trim lib (toLowerCase lib s)))"

definition algo_filter :: "string option \<Rightarrow> gpu \<Rightarrow> bool" where
  "algo_filter v g = (case v of None \<Rightarrow> True | Some a \<Rightarrow> a = [] \<or> algo g = a)"

text \<open>
  The sort key the specification names for each value of the sort control, and the
  validity and the name filter as the specification words them (the source has no
  validation, and it trims the search text).
\<close>

definition spec_sort_key :: "string option \<Rightarrow> gpu \<Rightarrow> jsnum" where
  "spec_sort_key sortValue g =
     (if sortValue = Some ''hashrate'' then toNumber (hashrate g)
      else if sortValue = Some ''efficiency'' then efficiency (gpuMetrics g)
      else if sortValue = Some ''price'' then toNumber (priceArs g)
      else if sortValue = Some ''roi'' then roiDays (gpuMetrics g)
      else score (gpuMetrics g))"

definition spec_valid :: "gpu \<Rightarrow> bool" where
  "spec_valid g =
     (hashrate g \<noteq> None \<and> priceArs g \<noteq> None \<and> dailyProfitUsd g \<noteq> None
      \<and> (case power_w g of None \<Rightarrow> False | Some p \<Rightarrow> js_gt p (js_nat 0)))"

definition spec_name_filter :: "builtins \<Rightarrow> string option \<Rightarrow> gpu \<Rightarrow> bool" where
  "spec_name_filter lib v g =
     (case v of
        None \<Rightarrow> True
      | Some s \<Rightarrow> s = [] \<or> str_includes (toLowerCase lib (name g)) (toLowerCase lib s))"

text \<open>Inputs for the examples.\<close>

definition no_controls :: controls where
  "no_controls = \<lparr>searchInput = None, algoSelect = None, sortSelect = None\<rparr>"

definition example_gpu_no_power :: gpu where
  "example_gpu_no_power = example_gpu\<lparr>power_w := None\<rparr>"

definition example_gpu_neg_zero_power :: gpu where
  "example_gpu_neg_zero_power = example_gpu\<lparr>power_w := Some (Fin True 0 1074)\<rparr>"

definition gpu_a :: gpu where
  "gpu_a =
     \<lparr>name = ''A'', algo = ''eth'',
      hashrate = Some (js_nat 10), power_w = Some (js_nat 100),
      priceArs = Some (js_nat 2000), dailyProfitUsd = Some (js_nat 1)\<rparr>"

definition gpu_b :: gpu where
  "gpu_b =
     \<lparr>name = ''B'', algo = ''eth'',
      hashrate = Some (js_nat 20), power_w = Some (js_nat 100),
      priceArs = Some (js_nat 1000), dailyProfitUsd = Some (js_nat 1)\<rparr>"

definition gpu_c :: gpu where
  "gpu_c = gpu_a\<lparr>name := ''C''\<rparr>"

subsection \<open>The same function on a store\<close>

text \<open>
  Arrays and records are objects that are shared by reference.  A store holds the objects
  and the arrays, each under a reference; \<open>next_ref\<close> is the next reference to hand out, so
  every reference below it is in use.  Spreading (\<open>[...gpus]\<close>) and \<open>filter\<close> allocate a new
  array of the same references; \<open>sort\<close> overwrites the array it is called on.  The metrics
  objects that the comparator creates are dropped after each comparison and are not kept in
  the store.
\<close>

type_synonym ref = nat

record 'o store =
  objects :: "ref \<Rightarrow> 'o"
  arrays :: "ref \<Rightarrow> ref list"
  next_ref :: ref

definition alloc_array :: "'o store \<Rightarrow> ref list \<Rightarrow> ref \<times> 'o store" where
  "alloc_array h xs =
     (next_ref h, h\<lparr>arrays := (arrays h)(next_ref h := xs), next_ref := Suc (next_ref h)\<rparr>)"

definition alloc_object :: "'o store \<Rightarrow> 'o \<Rightarrow> ref \<times> 'o store" where
  "alloc_object h obj =
     (next_ref h, h\<lparr>objects := (objects h)(next_ref h := obj), next_ref := Suc (next_ref h)\<rparr>)"

definition array_filter :: "'o store \<Rightarrow> ref \<Rightarrow> ('o \<Rightarrow> bool) \<Rightarrow> ref \<times> 'o store" where
  "array_filter h a p = alloc_array h (filter (\<lambda>r. p (objects h r)) (arrays h a))"

definition array_sort_in_place :: "'o store \<Rightarrow> ref \<Rightarrow> ('o \<Rightarrow> 'o \<Rightarrow> jsnum) \<Rightarrow> 'o store" where
  "array_sort_in_place h a comparefn =
     h\<lparr>arrays := (arrays h)
          (a := array_sort (\<lambda>x y. comparefn (objects h x) (objects h y)) (arrays h a))\<rparr>"

definition applyFilters_store ::
  "builtins \<Rightarrow> gpu store \<Rightarrow> ref \<Rightarrow> controls \<Rightarrow> ref \<times> gpu store" where
  "applyFilters_store lib h gpus ui =
     (let search = map_option (\<lambda>v. trim lib (toLowerCase lib v)) (searchInput ui);
          algoValue = algoSelect ui;
          sortValue = sortSelect ui;
          (result, h) = alloc_array h (arrays h gpus);
          (result, h) = (case search of
                           None \<Rightarrow> (result, h)
                         | Some s \<Rightarrow>
                             if s = [] then (result, h)
                             else array_filter h result
                                    (\<lambda>g. str_includes (toLowerCase lib (name g)) s));
          (result, h) = (case algoValue of
                           None \<Rightarrow> (result, h)
                         | Some a \<Rightarrow>
                             if a = [] then (result, h)
                             else array_filter h result (\<lambda>g. algo g = a));
          h = array_sort_in_place h result (compareGpus sortValue)
      in (result, h))"

text \<open>
  \<open>unchanged_below n h h'\<close>: every object and every array that has a reference below \<open>n\<close>
  is in \<open>h'\<close> what it is in \<open>h\<close>.
\<close>

definition unchanged_below :: "ref \<Rightarrow> 'o store \<Rightarrow> 'o store \<Rightarrow> bool" where
  "unchanged_below n h h' = (\<forall>r<n. objects h' r = objects h r \<and> arrays h' r = arrays h r)"

text \<open>A store with two records and the array \<open>gpus\<close> that holds them, for the examples.\<close>

definition example_store :: "gpu store" where
  "example_store =
     \<lparr>objects = (\<lambda>r. if r = 0 then gpu_a else gpu_b),
      arrays = (\<lambda>r. if r = 2 then [0, 1] else []),
      next_ref = 3\<rparr>"

definition efficiency_controls :: controls where
  "efficiency_controls =
     \<lparr>searchInput = None, algoSelect = None, sortSelect = Some ''efficiency''\<rparr>"

section \<open>The generic comparator and the enrichment (second script)\<close>

text \<open>
  The second script reads records by a computed key (\<open>a[key]\<close>) and copies them with the
  spread syntax, so a record is a dictionary from property names to values.
\<close>

datatype jsval = Undefined | Null | Bool bool | Num jsnum | Str string

type_synonym jsobj = "string \<rightharpoonup> jsval"

definition get :: "jsobj \<Rightarrow> string \<Rightarrow> jsval" where
  "get obj key = (case obj key of None \<Rightarrow> Undefined | Some v \<Rightarrow> v)"

fun typeof :: "jsval \<Rightarrow> string" where
  "typeof Undefined = ''undefined''"
| "typeof Null = ''object''"
| "typeof (Bool _) = ''boolean''"
| "typeof (Num _) = ''number''"
| "typeof (Str _) = ''string''"

fun toNumberV :: "builtins \<Rightarrow> jsval \<Rightarrow> jsnum" where
  "toNumberV lib Undefined = NaN"
| "toNumberV lib Null = js_nat 0"
| "toNumberV lib (Bool b) = (if b then js_nat 1 else js_nat 0)"
| "toNumberV lib (Num x) = x"
| "toNumberV lib (Str s) = stringToNumber lib s"

fun toStringV :: "builtins \<Rightarrow> jsval \<Rightarrow> string" where
  "toStringV lib Undefined = ''undefined''"
| "toStringV lib Null = ''null''"
| "toStringV lib (Bool b) = (if b then ''true'' else ''false'')"
| "toStringV lib (Num x) = numberToString lib x"
| "toStringV lib (Str s) = s"

text \<open>The relational operator \<open><\<close>: two strings compare as strings, anything else as numbers.\<close>

fun js_less :: "builtins \<Rightarrow> jsval \<Rightarrow> jsval \<Rightarrow> bool" where
  "js_less lib (Str a) (Str b) = str_lt a b"
| "js_less lib x y = js_lt (toNumberV lib x) (toNumberV lib y)"

definition compareValues :: "builtins \<Rightarrow> string \<Rightarrow> string \<Rightarrow> jsobj \<Rightarrow> jsobj \<Rightarrow> int" where
  "compareValues lib key order a b =
     (let valueA = get a key;
          valueB = get b key;
          isNumber = (typeof valueA = ''number'' \<and> typeof valueB = ''number'');
          valueA = (if \<not> isNumber then Str (toLowerCase lib (toStringV lib valueA)) else valueA);
          valueB = (if \<not> isNumber then Str (toLowerCase lib (toStringV lib valueB)) else valueB)
      in if js_less lib valueA valueB then (if order = ''asc'' then - 1 else 1)
         else if js_less lib valueB valueA then (if order = ''asc'' then 1 else - 1)
         else 0)"

definition conversionRate :: jsnum where
  "conversionRate = js_nat 350"

text \<open>The callback of \<open>data.map\<close> in \<open>enrichGpuData\<close>: the properties of the new object.\<close>

definition enrich :: "builtins \<Rightarrow> jsobj \<Rightarrow> jsobj" where
  "enrich lib g =
     (let efficiency =
            stringToNumber lib
              (toFixed2 lib (js_div (toNumberV lib (get g ''hashrate''))
                                    (toNumberV lib (get g ''power''))));
          dailyProfitArs = js_mul (toNumberV lib (get g ''dailyProfitUsd'')) conversionRate;
          roi = mathRound lib (js_div (toNumberV lib (get g ''priceArs'')) dailyProfitArs)
      in g(''efficiency'' \<mapsto> Num efficiency,
           ''dailyProfit'' \<mapsto> Num (mathRound lib dailyProfitArs),
           ''roi'' \<mapsto> Num roi))"

text \<open>
  \<open>data.map\<close> allocates the result array, then one new object per element, in order, and
  stores their references in the result array.
\<close>

fun enrich_all :: "builtins \<Rightarrow> jsobj store \<Rightarrow> ref list \<Rightarrow> ref list \<times> jsobj store" where
  "enrich_all lib h [] = ([], h)"
| "enrich_all lib h (r # rs) =
     (let (r', h) = alloc_object h (enrich lib (objects h r));
          (rs', h) = enrich_all lib h rs
      in (r' # rs', h))"

definition enrichGpuData :: "builtins \<Rightarrow> jsobj store \<Rightarrow> ref \<Rightarrow> ref \<times> jsobj store" where
  "enrichGpuData lib h data =
     (let (result, h) = alloc_array h [];
          (rs, h) = enrich_all lib h (arrays h data)
      in (result, h\<lparr>arrays := (arrays h)(result := rs)\<rparr>))"

text \<open>
  A stand-in for the library functions, two records of the second script and a store that
  holds them, for the examples.
\<close>

definition example_lib :: builtins where
  "example_lib =
     \<lparr>toLowerCase = latin1_toLowerCase, trim = latin1_trim,
      stringToNumber = (\<lambda>s. NaN), numberToString = (\<lambda>x. ''NaN''),
      toFixed2 = (\<lambda>x. ''NaN''), mathRound = (\<lambda>x. x)\<rparr>"

definition obj_a :: jsobj where
  "obj_a = [''name'' \<mapsto> Str ''RTX'', ''hashrate'' \<mapsto> Num (js_nat 10)]"

definition obj_b :: jsobj where
  "obj_b = [''name'' \<mapsto> Str ''gtx'', ''hashrate'' \<mapsto> Num (js_nat 20)]"

definition example_obj_store :: "jsobj store" where
  "example_obj_store =
     \<lparr>objects = (\<lambda>r. if r = 0 then obj_a else obj_b),
      arrays = (\<lambda>r. if r = 2 then [0, 1] else []),
      next_ref = 3\<rparr>"

section \<open>Evaluation of the arithmetic\<close>

lemma bits_0 [simp]: "bits 0 = 0"
  by (simp add: bits.simps)

lemma bits_Suc_0 [simp]: "bits (Suc 0) = 1"
  by (simp add: bits.simps [of "Suc 0"])

lemma bits_1 [simp]: "bits 1 = 1"
  by (simp add: bits.simps [of 1])

lemma bits_Suc_Suc_0 [simp]: "bits (Suc (Suc 0)) = 2"
  by (simp add: bits.simps [of "Suc (Suc 0)"])

lemma bits_numeral_One: "bits (numeral Num.One) = 1"
  by simp

lemma bits_numeral_Bit0: "bits (numeral (Num.Bit0 n)) = bits (numeral n) + 1"
  by (subst bits.simps) simp

lemma bits_numeral_Bit1: "bits (numeral (Num.Bit1 n)) = bits (numeral n) + 1"
  by (subst bits.simps) simp

lemmas js_eval =
  js_nat_def mk_def js_inf_def signed_def round_mag_def floor_log2_def
  round_half_even_def bits_numeral_One bits_numeral_Bit0 bits_numeral_Bit1
  Let_def js_sub_def js_gt_def js_le_def toNumber_def
  USD_ARS_def ENERGY_ARS_PER_KWH_def

lemma example_gpu_metrics:
  "gpuMetrics example_gpu =
     \<lparr>efficiency = Fin False 4503599627370496 1021,
      dailyRevenueArs = Fin False 8796093022208000 1031,
      dailyEnergyCostArs = Fin False 6755399441055745 1030,
      dailyNetArs = Fin False 5418393301680128 1031,
      roiDays = Fin False 7139685894649351 1031,
      score = Fin False 5418393301680128 1030\<rparr>"
  by (simp add: gpuMetrics_def example_gpu_def js_eval)

lemma example_gpu_no_profit_metrics:
  "gpuMetrics example_gpu_no_profit =
     \<lparr>efficiency = Fin False 4503599627370496 1021,
      dailyRevenueArs = Fin False 0 0,
      dailyEnergyCostArs = Fin False 6755399441055745 1030,
      dailyNetArs = Fin True 6755399441055745 1030,
      roiDays = PInf,
      score = Fin True 6755399441055745 1029\<rparr>"
  by (simp add: gpuMetrics_def example_gpu_def example_gpu_no_profit_def js_eval)

section \<open>Values and comparison\<close>

lemma aligned_less:
  fixes x y :: int
  assumes "k \<le> k1" "k \<le> k2"
  shows "x * 2 ^ (k1 - k) < y * 2 ^ (k2 - k) \<longleftrightarrow> x * 2 ^ k1 < y * 2 ^ k2"
proof -
  have "x * 2 ^ k1 = (x * 2 ^ (k1 - k)) * 2 ^ k" "y * 2 ^ k2 = (y * 2 ^ (k2 - k)) * 2 ^ k"
    using assms by (simp_all add: mult.assoc flip: power_add)
  then have "(x * 2 ^ k1 < y * 2 ^ k2) =
      ((x * 2 ^ (k1 - k)) * 2 ^ k < (y * 2 ^ (k2 - k)) * 2 ^ k)"
    by (simp only:)
  also have "\<dots> = (x * 2 ^ (k1 - k) < y * 2 ^ (k2 - k))"
    by (rule mult_less_cancel_right_pos) simp
  finally show ?thesis by simp
qed

lemma aligned_sum_zero:
  fixes x y :: int
  assumes "k \<le> k1" "k \<le> k2"
  shows "x * 2 ^ (k1 - k) + y * 2 ^ (k2 - k) = 0 \<longleftrightarrow> x * 2 ^ k1 + y * 2 ^ k2 = 0"
proof -
  have "x * 2 ^ k1 + y * 2 ^ k2 = (x * 2 ^ (k1 - k) + y * 2 ^ (k2 - k)) * 2 ^ k"
    using assms by (simp add: distrib_right mult.assoc flip: power_add)
  then show ?thesis by simp
qed

lemma js_lt_Fin: "js_lt (Fin s1 m1 k1) (Fin s2 m2 k2) \<longleftrightarrow> ival (Fin s1 m1 k1) < ival (Fin s2 m2 k2)"
  by (simp add: Let_def aligned_less)

lemma same_number_NaN: "same_number a NaN \<longleftrightarrow> a = NaN"
  by (auto simp: same_number_def)

lemma same_number_PInf: "same_number a PInf \<longleftrightarrow> a = PInf"
  by (cases a) (auto simp: same_number_def)

lemma same_number_NInf: "same_number a NInf \<longleftrightarrow> a = NInf"
  by (cases a) (auto simp: same_number_def)

lemma same_number_Fin:
  "same_number a (Fin s m k) \<longleftrightarrow> (\<exists>s' m' k'. a = Fin s' m' k' \<and> ival a = ival (Fin s m k))"
proof (cases a)
  case (Fin s' m' k')
  then show ?thesis
    by (auto simp: same_number_def js_lt_Fin simp del: js_lt.simps ival.simps)
qed (simp_all add: same_number_def)

lemma signed_zero_iff: "signed s m = 0 \<longleftrightarrow> m = 0"
  by (simp add: signed_def)

lemma signed_not: "signed (\<not> s) m = - signed s m"
  by (simp add: signed_def)

lemma js_sub_same_value:
  assumes "ival (Fin s1 m1 k1) = ival (Fin s2 m2 k2)"
  shows "is_zero (js_sub (Fin s1 m1 k1) (Fin s2 m2 k2))"
proof -
  have eq: "signed s1 m1 * 2 ^ k1 = signed s2 m2 * 2 ^ k2"
    using assms by simp
  have zero: "m1 = 0 \<longleftrightarrow> m2 = 0"
    using eq by (metis mult_eq_0_iff power_not_zero signed_zero_iff zero_neq_numeral)
  show ?thesis
  proof (cases "m1 = 0")
    case True
    with zero show ?thesis by (simp add: js_sub_def)
  next
    case False
    have "signed s1 m1 * 2 ^ (k1 - min k1 k2) + signed (\<not> s2) m2 * 2 ^ (k2 - min k1 k2) = 0"
      using eq by (subst aligned_sum_zero) (simp_all add: signed_not)
    with False zero show ?thesis by (simp add: js_sub_def Let_def)
  qed
qed

lemma js_sub_same_number:
  assumes "same_number a k" "same_number b k"
  shows "js_sub a b = NaN \<or> is_zero (js_sub a b)"
proof (cases k)
  case NaN
  with assms show ?thesis by (simp add: same_number_NaN js_sub_def)
next
  case PInf
  with assms show ?thesis by (simp add: same_number_PInf js_sub_def)
next
  case NInf
  with assms show ?thesis by (simp add: same_number_NInf js_sub_def)
next
  case (Fin s m e)
  with assms obtain s1 m1 k1 s2 m2 k2 where
    ab: "a = Fin s1 m1 k1" "b = Fin s2 m2 k2" and "ival a = ival b"
    by (auto simp: same_number_Fin simp del: ival.simps)
  then show ?thesis using js_sub_same_value by simp
qed

lemma not_gt_zero: "x = NaN \<or> is_zero x \<Longrightarrow> \<not> js_gt (if x = NaN then js_nat 0 else x) (js_nat 0)"
  by (cases x) (auto simp: js_gt_def js_nat_def signed_def)

lemma js_gt_zero_cases:
  assumes "js_gt x (js_nat 0)"
  shows "x = PInf \<or> (\<exists>m k. x = Fin False m k \<and> m \<noteq> 0)"
proof (cases x)
  case (Fin s m k)
  with assms show ?thesis
    by (cases s) (auto simp: js_gt_def js_nat_def signed_def Let_def zero_less_mult_iff
        mult_less_0_iff)
qed (use assms in \<open>simp_all add: js_gt_def js_nat_def\<close>)

section \<open>The sort\<close>

lemma mset_insert_by: "mset (insert_by c x ys) = add_mset x (mset ys)"
  by (induction ys) simp_all

lemma mset_array_sort: "mset (array_sort c xs) = mset xs"
  by (induction xs) (simp_all add: array_sort_def mset_insert_by)

lemma set_array_sort: "set (array_sort c xs) = set xs"
  by (metis mset_array_sort set_mset_mset)

lemma filter_insert_by_neg: "\<not> P x \<Longrightarrow> filter P (insert_by c x ys) = filter P ys"
  by (induction ys) simp_all

lemma filter_insert_by_pos:
  "P x \<Longrightarrow> (\<And>y. y \<in> set ys \<Longrightarrow> P y \<Longrightarrow> \<not> js_gt (sortCompare c x y) (js_nat 0))
   \<Longrightarrow> filter P (insert_by c x ys) = x # filter P ys"
  by (induction ys) (simp_all add: filter_insert_by_neg)

lemma array_sort_stable:
  assumes "\<And>x y. P x \<Longrightarrow> P y \<Longrightarrow> \<not> js_gt (sortCompare c x y) (js_nat 0)"
  shows "filter P (array_sort c xs) = filter P xs"
proof (induction xs)
  case Nil
  then show ?case by (simp add: array_sort_def)
next
  case (Cons x xs)
  have unfold: "array_sort c (x # xs) = insert_by c x (array_sort c xs)"
    by (simp add: array_sort_def)
  show ?case
  proof (cases "P x")
    case True
    then have "filter P (insert_by c x (array_sort c xs)) = x # filter P (array_sort c xs)"
      using assms by (intro filter_insert_by_pos) auto
    with True Cons.IH unfold show ?thesis by simp
  next
    case False
    with Cons.IH unfold show ?thesis by (simp add: filter_insert_by_neg)
  qed
qed

lemma insert_by_no_move:
  "(\<And>y. \<not> js_gt (sortCompare c x y) (js_nat 0)) \<Longrightarrow> insert_by c x ys = x # ys"
  by (cases ys) simp_all

lemma array_sort_all_equal:
  assumes "\<And>x y. \<not> js_gt (sortCompare c x y) (js_nat 0)"
  shows "array_sort c xs = xs"
  by (induction xs) (simp_all add: array_sort_def insert_by_no_move assms)

lemma metrics_prop_simps:
  "metrics_prop m ''hashrate'' = None"
  "metrics_prop m ''priceArs'' = None"
  "metrics_prop m ''efficiency'' = Some (efficiency m)"
  "metrics_prop m ''roiDays'' = Some (roiDays m)"
  "metrics_prop m ''score'' = Some (score m)"
  by (simp_all add: metrics_prop_def)

lemma compareGpus_hashrate: "compareGpus (Some ''hashrate'') a b = NaN"
  by (simp add: compareGpus_def metrics_prop_simps toNumber_def js_sub_def)

lemma compareGpus_price: "compareGpus (Some ''price'') a b = NaN"
  by (simp add: compareGpus_def metrics_prop_simps toNumber_def js_sub_def)

lemma compareGpus_sort_key:
  "compareGpus sortValue x y =
     (if sortValue = Some ''hashrate'' \<or> sortValue = Some ''price'' then NaN
      else if sortValue = Some ''roi'' then js_sub (spec_sort_key sortValue x) (spec_sort_key sortValue y)
      else js_sub (spec_sort_key sortValue y) (spec_sort_key sortValue x))"
  by (simp add: compareGpus_def spec_sort_key_def metrics_prop_simps toNumber_def Let_def js_sub_def)

lemma compareGpus_same_key:
  assumes "same_number (spec_sort_key sortValue x) k" "same_number (spec_sort_key sortValue y) k"
  shows "\<not> js_gt (sortCompare (compareGpus sortValue) x y) (js_nat 0)"
proof -
  have "compareGpus sortValue x y = NaN \<or> is_zero (compareGpus sortValue x y)"
    using js_sub_same_number [OF assms] js_sub_same_number [OF assms(2) assms(1)]
    unfolding compareGpus_sort_key by (simp only: split: if_split) blast
  then show ?thesis
    unfolding sortCompare_def Let_def by (rule not_gt_zero)
qed

lemma applyFilters_unsorted:
  assumes "sortSelect ui = Some ''hashrate'' \<or> sortSelect ui = Some ''price''"
  shows "applyFilters lib gpus ui = filterGpus lib gpus ui"
  unfolding applyFilters_def Let_def
proof (rule array_sort_all_equal)
  fix x y
  have "compareGpus (sortSelect ui) x y = NaN"
    using assms compareGpus_hashrate compareGpus_price by auto
  then show "\<not> js_gt (sortCompare (compareGpus (sortSelect ui)) x y) (js_nat 0)"
    by (simp add: sortCompare_def js_gt_def js_nat_def)
qed

lemma filterGpus_filter:
  "filterGpus lib gpus ui =
     filter (\<lambda>g. name_filter lib (searchInput ui) g \<and> algo_filter (algoSelect ui) g) gpus"
  by (simp add: filterGpus_def name_filter_def algo_filter_def Let_def
      split: option.splits)

lemma char_simps:
  "lower_char CHR ''X'' = CHR ''x''" "lower_char CHR ''x'' = CHR ''x''"
  "lower_char CHR '' '' = CHR '' ''"
  "is_space CHR '' ''" "\<not> is_space CHR ''x''"
  by (simp_all add: lower_char_def latin1_upper_def latin1_lower_def is_space_def)

lemma example_lib_simps:
  "toLowerCase example_lib = latin1_toLowerCase" "trim example_lib = latin1_trim"
  by (simp_all add: example_lib_def)

lemma example_gpu_no_power_metrics:
  "gpuMetrics example_gpu_no_power =
     \<lparr>efficiency = NaN, dailyRevenueArs = Fin False 8796093022208000 1031,
      dailyEnergyCostArs = NaN, dailyNetArs = NaN, roiDays = PInf, score = NaN\<rparr>"
  by (simp add: gpuMetrics_def example_gpu_def example_gpu_no_power_def js_eval)

section \<open>The metrics\<close>

text \<open>
  Claim C1.  For every GPU record, \<open>roiDays\<close> follows the sentinel rule: when the daily net
  is greater than zero it is the quotient of the price by the daily net, and when the daily
  net is zero or negative it is positive infinity.  The only division that contributes to
  \<open>roiDays\<close> is the one under the guard, and \<open>gpuMetrics\<close> has no failing branch: it returns
  a metrics record for every input.
\<close>

theorem gpuMetrics_roiDays_rule:
  "(js_gt (dailyNetArs (gpuMetrics g)) (js_nat 0) \<longrightarrow>
      roiDays (gpuMetrics g) = js_div (toNumber (priceArs g)) (dailyNetArs (gpuMetrics g)))
   \<and> (js_le (dailyNetArs (gpuMetrics g)) (js_nat 0) \<longrightarrow> roiDays (gpuMetrics g) = PInf)"
  by (simp add: gpuMetrics_def Let_def js_le_def js_gt_def)

theorem gpuMetrics_roiDays_rule_witness:
  "js_gt (dailyNetArs (gpuMetrics example_gpu)) (js_nat 0)
   \<and> roiDays (gpuMetrics example_gpu) =
       js_div (toNumber (priceArs example_gpu)) (dailyNetArs (gpuMetrics example_gpu))
   \<and> js_le (dailyNetArs (gpuMetrics example_gpu_no_profit)) (js_nat 0)
   \<and> roiDays (gpuMetrics example_gpu_no_profit) = PInf"
  using gpuMetrics_roiDays_rule [of example_gpu]
    gpuMetrics_roiDays_rule [of example_gpu_no_profit]
  by (simp add: example_gpu_metrics example_gpu_no_profit_metrics js_gt_def js_le_def
      js_nat_def signed_def)

text \<open>
  Claim C5, as stated, gives the daily energy cost of the example record as exactly 384.
  The source computes \<open>(200 / 1000) * 24 * 80\<close> in binary64 arithmetic, where \<open>200 / 1000\<close>
  is rounded, and the product is \<open>384 + 2\<^sup>-\<^sup>4\<^sup>4\<close>.
\<close>

theorem example_energy_cost_counterexample:
  "fin_val (dailyEnergyCostArs (gpuMetrics example_gpu)) \<noteq> Some 384"
  by (simp add: example_gpu_metrics signed_def)

text \<open>
  Claim C5, amended.  For the example record the metrics are: efficiency \<open>1/2\<close>, daily
  revenue 1000, daily energy cost \<open>384 + 2\<^sup>-\<^sup>4\<^sup>4\<close>, daily net 616 (the subtraction rounds to
  it), ROI \<open>7139685894649351 / 2\<^sup>4\<^sup>3\<close> days, which lies between 811.6 and 811.7, and score
  308.  With no daily profit the daily net is \<open>-(384 + 2\<^sup>-\<^sup>4\<^sup>4)\<close>, the ROI is positive infinity
  and the score is \<open>-(192 + 2\<^sup>-\<^sup>4\<^sup>5)\<close>.
\<close>

theorem example_metrics_values:
  "fin_val (efficiency (gpuMetrics example_gpu)) = Some (1 / 2)
   \<and> fin_val (dailyRevenueArs (gpuMetrics example_gpu)) = Some 1000
   \<and> fin_val (dailyEnergyCostArs (gpuMetrics example_gpu)) = Some (384 + 1 / 2 ^ 44)
   \<and> fin_val (dailyNetArs (gpuMetrics example_gpu)) = Some 616
   \<and> fin_val (roiDays (gpuMetrics example_gpu)) = Some (7139685894649351 / 2 ^ 43)
   \<and> (8116 / 10 :: rat) < 7139685894649351 / 2 ^ 43
   \<and> (7139685894649351 / 2 ^ 43 :: rat) < 8117 / 10
   \<and> fin_val (score (gpuMetrics example_gpu)) = Some 308
   \<and> fin_val (dailyNetArs (gpuMetrics example_gpu_no_profit)) = Some (- (384 + 1 / 2 ^ 44))
   \<and> roiDays (gpuMetrics example_gpu_no_profit) = PInf
   \<and> fin_val (score (gpuMetrics example_gpu_no_profit)) = Some (- (192 + 1 / 2 ^ 45))"
  by (simp add: example_gpu_metrics example_gpu_no_profit_metrics signed_def)

text \<open>
  Claim C10, as stated, gives the efficiency of every record whose power is 0 and whose
  hashrate is positive as positive infinity.  A double has two zeros, and JSON text can
  denote both; with the power \<open>-0\<close> the quotient is negative infinity.
\<close>

theorem negative_zero_power_counterexample:
  "is_zero (toNumber (power_w example_gpu_neg_zero_power))
   \<and> js_gt (toNumber (hashrate example_gpu_neg_zero_power)) (js_nat 0)
   \<and> efficiency (gpuMetrics example_gpu_neg_zero_power) \<noteq> PInf"
  by (simp add: example_gpu_neg_zero_power_def example_gpu_def gpuMetrics_def toNumber_def
      js_gt_def js_nat_def signed_def js_inf_def Let_def)

text \<open>
  Claim C10, amended.  \<open>gpuMetrics\<close> returns for every record.  When the power is a zero
  and the hashrate is positive, the efficiency is the infinity with the sign of that zero
  (positive infinity for \<open>+0\<close>, negative infinity for \<open>-0\<close>), the daily energy cost is the
  zero with the same sign, and the other metrics follow from these by the usual formulas:
  the revenue is the profit times the rate, the net is the revenue minus the zero cost, the
  ROI follows the sentinel rule, and the score is the net times the infinite efficiency.
\<close>

theorem gpuMetrics_power_zero:
  assumes "power_w g = Some (Fin s 0 k)" and "js_gt (toNumber (hashrate g)) (js_nat 0)"
  shows "efficiency (gpuMetrics g) = js_inf s
     \<and> dailyEnergyCostArs (gpuMetrics g) = Fin s 0 0
     \<and> dailyRevenueArs (gpuMetrics g) = js_mul (toNumber (dailyProfitUsd g)) USD_ARS
     \<and> dailyNetArs (gpuMetrics g) = js_sub (dailyRevenueArs (gpuMetrics g)) (Fin s 0 0)
     \<and> roiDays (gpuMetrics g) =
         (if js_gt (dailyNetArs (gpuMetrics g)) (js_nat 0)
          then js_div (toNumber (priceArs g)) (dailyNetArs (gpuMetrics g)) else PInf)
     \<and> score (gpuMetrics g) = js_mul (dailyNetArs (gpuMetrics g)) (js_inf s)"
proof -
  have eff: "js_div (toNumber (hashrate g)) (Fin s 0 k) = js_inf s"
    using js_gt_zero_cases [OF assms(2)] by (auto simp: js_inf_def)
  have cost: "js_mul (js_mul (js_div (Fin s 0 k) (js_nat 1000)) (js_nat 24)) ENERGY_ARS_PER_KWH
      = Fin s 0 0"
    by (simp add: js_nat_def ENERGY_ARS_PER_KWH_def)
  show ?thesis
    using assms(1) eff cost by (simp add: gpuMetrics_def Let_def toNumber_def)
qed

theorem gpuMetrics_power_zero_witness:
  "power_w (example_gpu\<lparr>power_w := Some (Fin False 0 1074)\<rparr>) = Some (Fin False 0 1074)
   \<and> js_gt (toNumber (hashrate (example_gpu\<lparr>power_w := Some (Fin False 0 1074)\<rparr>))) (js_nat 0)
   \<and> efficiency (gpuMetrics (example_gpu\<lparr>power_w := Some (Fin False 0 1074)\<rparr>)) = PInf
   \<and> dailyEnergyCostArs (gpuMetrics (example_gpu\<lparr>power_w := Some (Fin False 0 1074)\<rparr>))
       = Fin False 0 0
   \<and> efficiency (gpuMetrics example_gpu_neg_zero_power) = NInf"
proof -
  have 1: "power_w (example_gpu\<lparr>power_w := Some (Fin False 0 1074)\<rparr>) = Some (Fin False 0 1074)"
    by simp
  have 2: "js_gt (toNumber (hashrate (example_gpu\<lparr>power_w := Some (Fin False 0 1074)\<rparr>)))
      (js_nat 0)"
    by (simp add: example_gpu_def toNumber_def js_gt_def js_nat_def signed_def)
  have 3: "power_w example_gpu_neg_zero_power = Some (Fin True 0 1074)"
    by (simp add: example_gpu_neg_zero_power_def)
  have 4: "js_gt (toNumber (hashrate example_gpu_neg_zero_power)) (js_nat 0)"
    by (simp add: example_gpu_neg_zero_power_def example_gpu_def toNumber_def js_gt_def
        js_nat_def signed_def)
  show ?thesis
    using gpuMetrics_power_zero [OF 1 2] gpuMetrics_power_zero [OF 3 4] 1 2
    by (simp add: js_inf_def)
qed

section \<open>The ranking\<close>

text \<open>
  Claim C2 says that the sort control \<open>hashrate\<close> orders by hashrate, descending, and
  \<open>price\<close> by price, ascending.  The comparator reads both from the metrics objects, which do
  not have these properties, so its result is \<open>NaN\<close> for every pair and the sort leaves the
  filtered records in input order (\<open>applyFilters_unsorted\<close>).  Here the record with the lower
  hashrate and the higher price stays first under both controls.  The other three controls
  do order the records, as long as no key is \<open>NaN\<close>: see \<open>applyFilters_sorted_efficiency\<close>,
  \<open>applyFilters_sorted_roi\<close>, \<open>roi_finite_before_infinite\<close> and \<open>applyFilters_sorted_score\<close>
  in the last section.
\<close>

theorem hashrate_and_price_sort_leave_order:
  "applyFilters example_lib [gpu_a, gpu_b] \<lparr>searchInput = None, algoSelect = None, sortSelect = Some ''hashrate''\<rparr>
     = [gpu_a, gpu_b]
   \<and> js_lt (toNumber (hashrate gpu_a)) (toNumber (hashrate gpu_b))
   \<and> applyFilters example_lib [gpu_a, gpu_b] \<lparr>searchInput = None, algoSelect = None, sortSelect = Some ''price''\<rparr>
     = [gpu_a, gpu_b]
   \<and> js_lt (toNumber (priceArs gpu_b)) (toNumber (priceArs gpu_a))"
  by (simp add: applyFilters_def filterGpus_def array_sort_def sortCompare_def
      compareGpus_hashrate compareGpus_price js_gt_def js_nat_def toNumber_def gpu_a_def gpu_b_def
      signed_def)

text \<open>
  Claim C3, as stated, has a record without power rejected before the metrics are computed
  and kept out of the result.  The source validates nothing: the record is compared through
  its metrics like any other record and stays in the result, here even in first place.
\<close>

theorem invalid_record_counterexample:
  "\<not> spec_valid example_gpu_no_power
   \<and> applyFilters example_lib [example_gpu_no_power, example_gpu] no_controls =
       [example_gpu_no_power, example_gpu]"
  by (simp add: spec_valid_def applyFilters_def filterGpus_def no_controls_def array_sort_def
      sortCompare_def compareGpus_def metrics_prop_simps example_gpu_no_power_metrics
      example_gpu_metrics toNumber_def js_sub_def js_gt_def js_nat_def)
    (simp add: example_gpu_no_power_def)

text \<open>
  Claim C3, amended.  A record that the specification calls invalid (a numeric field is
  missing, or the power is not greater than zero) is not rejected by any validation: it
  occurs in the ranking as often as in the input when it passes the two filters, and not
  at all otherwise, exactly as a valid record does.
\<close>

theorem invalid_record_is_ranked:
  "\<not> spec_valid g \<Longrightarrow>
     count_list (applyFilters lib gpus ui) g =
       (if name_filter lib (searchInput ui) g \<and> algo_filter (algoSelect ui) g
        then count_list gpus g else 0)"
proof -
  have "count_list (applyFilters lib gpus ui) g = count (mset (applyFilters lib gpus ui)) g"
    by (simp add: count_mset)
  also have "\<dots> = count (mset (filterGpus lib gpus ui)) g"
    by (simp add: applyFilters_def mset_array_sort)
  also have "\<dots> = (if name_filter lib (searchInput ui) g \<and> algo_filter (algoSelect ui) g
        then count_list gpus g else 0)"
    by (simp add: filterGpus_filter count_mset)
  finally show ?thesis .
qed

theorem invalid_record_is_ranked_witness:
  "\<not> spec_valid example_gpu_no_power
   \<and> count_list (applyFilters example_lib [example_gpu_no_power, example_gpu] no_controls)
         example_gpu_no_power = 1"
proof -
  have 1: "\<not> spec_valid example_gpu_no_power"
    by (simp add: spec_valid_def example_gpu_no_power_def)
  have 2: "example_gpu \<noteq> example_gpu_no_power"
    by (simp add: example_gpu_no_power_def example_gpu_def)
  show ?thesis
    using invalid_record_is_ranked [OF 1, where gpus = "[example_gpu_no_power, example_gpu]"
          and ui = no_controls and lib = example_lib] 1 2
    by (simp add: no_controls_def name_filter_def algo_filter_def)
qed

text \<open>
  Claim C4, as stated, keeps a record if and only if its name contains the search text,
  case-insensitively.  The source trims the search text first: the text \<open>x\<close> followed by a
  blank is not contained in the name \<open>X\<close>, and the record is kept.  (The library here is
  \<open>example_lib\<close>, with \<open>toLowerCase\<close> and \<open>trim\<close> as on Latin-1 text.)
\<close>

theorem trimmed_search_counterexample:
  "example_gpu \<in> set (applyFilters example_lib [example_gpu]
       \<lparr>searchInput = Some ''x '', algoSelect = None, sortSelect = None\<rparr>)
   \<and> \<not> spec_name_filter example_lib (Some ''x '') example_gpu"
  by (simp add: applyFilters_def filterGpus_def array_sort_def spec_name_filter_def
      example_lib_simps latin1_toLowerCase_def latin1_trim_def char_simps example_gpu_def)

text \<open>
  Claim C4, amended.  A record is in the result if and only if it is in the input, its
  lower-cased name contains the lower-cased and trimmed search text (when that text is not
  empty) and its algorithm equals the selected one (when that is not empty).  The filtered
  list is the intersection, in input order, of the list filtered by the search text alone
  and the list filtered by the algorithm alone, and so is the result as a set.  With each
  option absent, empty or, for the search text, empty after trimming, nothing is filtered.
  Lower-casing and trimming are what \<open>toLowerCase\<close> and \<open>trim\<close> of the library return: this
  holds for every \<open>lib\<close>.
\<close>

theorem applyFilters_retains:
  "(g \<in> set (applyFilters lib gpus ui) \<longleftrightarrow>
      g \<in> set gpus \<and> name_filter lib (searchInput ui) g \<and> algo_filter (algoSelect ui) g)
   \<and> filterGpus lib gpus ui =
       filter (\<lambda>g. g \<in> set (filterGpus lib gpus (ui\<lparr>searchInput := None\<rparr>)))
         (filterGpus lib gpus (ui\<lparr>algoSelect := None\<rparr>))
   \<and> set (applyFilters lib gpus ui) =
       set (applyFilters lib gpus (ui\<lparr>algoSelect := None\<rparr>))
       \<inter> set (applyFilters lib gpus (ui\<lparr>searchInput := None\<rparr>))
   \<and> ((case searchInput ui of None \<Rightarrow> True | Some s \<Rightarrow> trim lib (toLowerCase lib s) = [])
        \<and> (case algoSelect ui of None \<Rightarrow> [] | Some a \<Rightarrow> a) = []
        \<longrightarrow> filterGpus lib gpus ui = gpus)"
proof -
  have set_eq: "set (applyFilters lib gpus u) = set (filterGpus lib gpus u)" for u
    by (simp add: applyFilters_def set_array_sort)
  have 1: "g \<in> set (applyFilters lib gpus ui) \<longleftrightarrow>
      g \<in> set gpus \<and> name_filter lib (searchInput ui) g \<and> algo_filter (algoSelect ui) g"
    by (auto simp: set_eq filterGpus_filter)
  have 2: "filterGpus lib gpus ui =
       filter (\<lambda>g. g \<in> set (filterGpus lib gpus (ui\<lparr>searchInput := None\<rparr>)))
         (filterGpus lib gpus (ui\<lparr>algoSelect := None\<rparr>))"
    by (auto simp: filterGpus_filter name_filter_def algo_filter_def intro: filter_cong)
  have 3: "set (applyFilters lib gpus ui) =
       set (applyFilters lib gpus (ui\<lparr>algoSelect := None\<rparr>))
       \<inter> set (applyFilters lib gpus (ui\<lparr>searchInput := None\<rparr>))"
    by (auto simp: set_eq filterGpus_filter name_filter_def algo_filter_def)
  have 4: "(case searchInput ui of None \<Rightarrow> True | Some s \<Rightarrow> trim lib (toLowerCase lib s) = [])
        \<and> (case algoSelect ui of None \<Rightarrow> [] | Some a \<Rightarrow> a) = []
        \<longrightarrow> filterGpus lib gpus ui = gpus"
    by (auto simp: filterGpus_filter name_filter_def algo_filter_def split: option.splits)
  from 1 2 3 4 show ?thesis by blast
qed

theorem applyFilters_retains_witness:
  "example_gpu \<in> set (applyFilters example_lib [example_gpu, gpu_a]
       \<lparr>searchInput = Some ''x '', algoSelect = Some ''eth'', sortSelect = None\<rparr>)
   \<and> gpu_a \<notin> set (applyFilters example_lib [example_gpu, gpu_a]
       \<lparr>searchInput = Some ''x '', algoSelect = Some ''eth'', sortSelect = None\<rparr>)
   \<and> filterGpus example_lib [example_gpu, gpu_a] no_controls = [example_gpu, gpu_a]"
proof -
  have a: "lower_char CHR ''A'' = CHR ''a''"
    by (simp add: lower_char_def latin1_upper_def latin1_lower_def)
  have 1: "name_filter example_lib (Some ''x '') example_gpu"
    "\<not> name_filter example_lib (Some ''x '') gpu_a"
    by (simp_all add: name_filter_def example_lib_simps latin1_toLowerCase_def latin1_trim_def
        char_simps a example_gpu_def gpu_a_def)
  have 2: "algo_filter (Some ''eth'') example_gpu"
    by (simp add: algo_filter_def example_gpu_def)
  let ?ui = "\<lparr>searchInput = Some ''x '', algoSelect = Some ''eth'', sortSelect = None\<rparr>"
  note r1 = applyFilters_retains [where g = example_gpu and gpus = "[example_gpu, gpu_a]"
      and ui = ?ui and lib = example_lib, THEN conjunct1]
  note r2 = applyFilters_retains [where g = gpu_a and gpus = "[example_gpu, gpu_a]"
      and ui = ?ui and lib = example_lib, THEN conjunct1]
  note r3 = applyFilters_retains [where g = gpu_a and gpus = "[example_gpu, gpu_a]"
      and ui = no_controls and lib = example_lib, THEN conjunct2, THEN conjunct2, THEN conjunct2]
  have 3: "filterGpus example_lib [example_gpu, gpu_a] no_controls = [example_gpu, gpu_a]"
    using r3 by (simp add: no_controls_def example_lib_simps latin1_toLowerCase_def latin1_trim_def)
  show ?thesis
    using r1 r2 1 2 3 by simp
qed

text \<open>
  Claim C7.  A value of the sort control other than \<open>hashrate\<close>, \<open>efficiency\<close>, \<open>price\<close> and \<open>roi\<close>,
  or no value at all, selects the default branch of the comparator, which is the branch of
  \<open>bestValue\<close>: the result is the one for \<open>bestValue\<close>.  Filtering and sorting have no failing
  branch, whatever the value of the control.
\<close>

theorem unknown_sortKey_is_bestValue:
  assumes "sortSelect ui \<notin> {Some ''hashrate'', Some ''efficiency'', Some ''price'', Some ''roi''}"
  shows "applyFilters lib gpus ui = applyFilters lib gpus (ui\<lparr>sortSelect := Some ''bestValue''\<rparr>)"
proof -
  have "compareGpus (sortSelect ui) a b = compareGpus (Some ''bestValue'') a b" for a b
    using assms by (simp add: compareGpus_def)
  then have "compareGpus (sortSelect ui) = compareGpus (Some ''bestValue'')"
    by (simp add: fun_eq_iff)
  then show ?thesis
    by (simp add: applyFilters_def filterGpus_def)
qed

theorem unknown_sortKey_is_bestValue_witness:
  "Some ''speed'' \<notin> {Some ''hashrate'', Some ''efficiency'', Some ''price'', Some ''roi''}
   \<and> applyFilters example_lib [gpu_a, gpu_b]
         \<lparr>searchInput = None, algoSelect = None, sortSelect = Some ''speed''\<rparr> =
       applyFilters example_lib [gpu_a, gpu_b]
         \<lparr>searchInput = None, algoSelect = None, sortSelect = Some ''bestValue''\<rparr>
   \<and> applyFilters example_lib [gpu_a, gpu_b]
         \<lparr>searchInput = None, algoSelect = None, sortSelect = None\<rparr> =
       applyFilters example_lib [gpu_a, gpu_b]
         \<lparr>searchInput = None, algoSelect = None, sortSelect = Some ''bestValue''\<rparr>"
  using unknown_sortKey_is_bestValue [where lib = example_lib and gpus = "[gpu_a, gpu_b]" and
      ui = "\<lparr>searchInput = None, algoSelect = None, sortSelect = Some ''speed''\<rparr>"]
    unknown_sortKey_is_bestValue [where lib = example_lib and gpus = "[gpu_a, gpu_b]" and
      ui = "\<lparr>searchInput = None, algoSelect = None, sortSelect = None\<rparr>"]
  by simp

section \<open>The generic comparator\<close>

lemma typeof_number: "typeof v = ''number'' \<longleftrightarrow> (\<exists>x. v = Num x)"
  by (cases v) simp_all

lemma str_lt_asym: "str_lt a b \<Longrightarrow> \<not> str_lt b a"
  by (induction a b rule: str_lt.induct) auto

lemma js_lt_asym: "js_lt a b \<Longrightarrow> \<not> js_lt b a"
proof (cases a; cases b)
  fix s1 m1 k1 s2 m2 k2
  assume "a = Fin s1 m1 k1" "b = Fin s2 m2 k2" "js_lt a b"
  then show "\<not> js_lt b a"
    by (simp add: js_lt_Fin del: js_lt.simps)
qed simp_all

lemma js_less_asym: "js_less lib u v \<Longrightarrow> \<not> js_less lib v u"
  by (cases "(lib, u, v)" rule: js_less.cases) (auto dest: str_lt_asym js_lt_asym)

lemma compareValues_numbers:
  "get a key = Num x \<Longrightarrow> get b key = Num y \<Longrightarrow>
   compareValues lib key order a b =
     (if js_lt x y then (if order = ''asc'' then - 1 else 1)
      else if js_lt y x then (if order = ''asc'' then 1 else - 1) else 0)"
  by (simp add: compareValues_def)

lemma compareValues_strings:
  "\<not> (\<exists>x y. get a key = Num x \<and> get b key = Num y) \<Longrightarrow>
   compareValues lib key order a b =
     (if str_lt (toLowerCase lib (toStringV lib (get a key))) (toLowerCase lib (toStringV lib (get b key)))
      then (if order = ''asc'' then - 1 else 1)
      else if str_lt (toLowerCase lib (toStringV lib (get b key)))
                (toLowerCase lib (toStringV lib (get a key)))
      then (if order = ''asc'' then 1 else - 1) else 0)"
  by (auto simp add: compareValues_def typeof_number Let_def)

lemma compareValues_swap: "compareValues lib key order b a = - compareValues lib key order a b"
  by (auto simp: compareValues_def Let_def dest: js_less_asym str_lt_asym js_lt_asym)

text \<open>
  Claim C8.  For every key, every two records and each of the directions \<open>asc\<close> and \<open>desc\<close>:
  when both values are numbers the comparator compares them as numbers, and otherwise it
  compares the lower-cased string conversions of the two values as strings; \<open>desc\<close> negates
  the result of \<open>asc\<close>; and exchanging the two records negates the result.  Lower-casing
  is what \<open>toLowerCase\<close> of the library returns, and the strings are compared by code units:
  this holds for every \<open>lib\<close>, whatever \<open>toLowerCase\<close> and the conversion of a number to a
  string yield.
\<close>

theorem compareValues_contract:
  assumes "order = ''asc'' \<or> order = ''desc''"
  shows
    "(\<forall>x y. get a key = Num x \<and> get b key = Num y \<longrightarrow>
        compareValues lib key ''asc'' a b = (if js_lt x y then - 1 else if js_lt y x then 1 else 0))
     \<and> (\<not> (\<exists>x y. get a key = Num x \<and> get b key = Num y) \<longrightarrow>
        compareValues lib key ''asc'' a b =
          (if str_lt (toLowerCase lib (toStringV lib (get a key)))
                (toLowerCase lib (toStringV lib (get b key))) then - 1
           else if str_lt (toLowerCase lib (toStringV lib (get b key)))
                     (toLowerCase lib (toStringV lib (get a key))) then 1
           else 0))
     \<and> compareValues lib key ''desc'' a b = - compareValues lib key ''asc'' a b
     \<and> compareValues lib key order a b = - compareValues lib key order b a"
proof -
  have flip: "compareValues lib key ''desc'' a b = - compareValues lib key ''asc'' a b"
    by (simp add: compareValues_def Let_def)
  show ?thesis
    using flip compareValues_swap [of lib key order a b]
    by (simp add: compareValues_numbers compareValues_strings)
qed

theorem compareValues_contract_witness:
  "(''desc'' = ''asc'' \<or> ''desc'' = ''desc'')
   \<and> compareValues example_lib ''hashrate'' ''asc'' obj_a obj_b = - 1
   \<and> compareValues example_lib ''name'' ''asc'' obj_a obj_b = 1
   \<and> compareValues example_lib ''hashrate'' ''desc'' obj_a obj_b = 1
   \<and> compareValues example_lib ''hashrate'' ''desc'' obj_b obj_a = - 1"
proof -
  have h: "get obj_a ''hashrate'' = Num (js_nat 10)" "get obj_b ''hashrate'' = Num (js_nat 20)"
    by (simp_all add: get_def obj_a_def obj_b_def)
  have n: "get obj_a ''name'' = Str ''RTX''" "get obj_b ''name'' = Str ''gtx''"
    by (simp_all add: get_def obj_a_def obj_b_def)
  have lt: "js_lt (js_nat 10) (js_nat 20)" "\<not> js_lt (js_nat 20) (js_nat 10)"
    by (simp_all add: js_nat_def signed_def)
  have low: "toLowerCase example_lib ''RTX'' = ''rtx''" "toLowerCase example_lib ''gtx'' = ''gtx''"
    by (simp_all add: example_lib_simps latin1_toLowerCase_def lower_char_def latin1_upper_def
        latin1_lower_def)
  have s: "str_lt ''gtx'' ''rtx''" "\<not> str_lt ''rtx'' ''gtx''"
    by simp_all
  have o: "''desc'' = ''asc'' \<or> ''desc'' = ''desc''"
    by simp
  show ?thesis
    using compareValues_contract [OF o, where a = obj_a and b = obj_b and key = "''hashrate''"
          and lib = example_lib]
      compareValues_contract [OF o, where a = obj_a and b = obj_b and key = "''name''"
          and lib = example_lib]
      h n lt low s
    by simp
qed

section \<open>The store\<close>

lemma alloc_array_simps:
  "fst (alloc_array h xs) = next_ref h"
  "objects (snd (alloc_array h xs)) = objects h"
  "arrays (snd (alloc_array h xs)) = (arrays h)(next_ref h := xs)"
  "next_ref (snd (alloc_array h xs)) = Suc (next_ref h)"
  by (simp_all add: alloc_array_def)

lemma alloc_object_simps:
  "fst (alloc_object h obj) = next_ref h"
  "objects (snd (alloc_object h obj)) = (objects h)(next_ref h := obj)"
  "arrays (snd (alloc_object h obj)) = arrays h"
  "next_ref (snd (alloc_object h obj)) = Suc (next_ref h)"
  by (simp_all add: alloc_object_def)

lemma array_filter_simps:
  "fst (array_filter h a p) = next_ref h"
  "objects (snd (array_filter h a p)) = objects h"
  "arrays (snd (array_filter h a p)) =
     (arrays h)(next_ref h := filter (\<lambda>r. p (objects h r)) (arrays h a))"
  "next_ref (snd (array_filter h a p)) = Suc (next_ref h)"
  by (simp_all add: array_filter_def alloc_array_simps)

lemma array_sort_in_place_simps:
  "objects (array_sort_in_place h a c) = objects h"
  "arrays (array_sort_in_place h a c) =
     (arrays h)(a := array_sort (\<lambda>x y. c (objects h x) (objects h y)) (arrays h a))"
  "next_ref (array_sort_in_place h a c) = next_ref h"
  by (simp_all add: array_sort_in_place_def)

lemmas store_simps =
  alloc_array_simps alloc_object_simps array_filter_simps array_sort_in_place_simps

lemma applyFilters_store_frame:
  "objects (snd (applyFilters_store lib h gpus ui)) = objects h
   \<and> next_ref h \<le> fst (applyFilters_store lib h gpus ui)
   \<and> (\<forall>r<next_ref h. arrays (snd (applyFilters_store lib h gpus ui)) r = arrays h r)"
  by (simp add: applyFilters_store_def Let_def case_prod_beta store_simps
      split: option.splits)

lemma insert_by_map:
  "map f (insert_by (\<lambda>x y. c (f x) (f y)) x ys) = insert_by c (f x) (map f ys)"
  by (induction ys) (simp_all add: sortCompare_def)

lemma array_sort_map:
  "map f (array_sort (\<lambda>x y. c (f x) (f y)) xs) = array_sort c (map f xs)"
  by (induction xs) (simp_all add: array_sort_def insert_by_map)

lemma applyFilters_store_refines:
  "map (objects h) (arrays (snd (applyFilters_store lib h gpus ui)) (fst (applyFilters_store lib h gpus ui)))
     = applyFilters lib (map (objects h) (arrays h gpus)) ui"
  by (simp add: applyFilters_store_def applyFilters_def filterGpus_def Let_def case_prod_beta
      store_simps array_sort_map filter_map comp_def split: option.splits)

lemma enrich_all_frame:
  "next_ref h \<le> next_ref (snd (enrich_all lib h rs))
   \<and> arrays (snd (enrich_all lib h rs)) = arrays h
   \<and> (\<forall>r<next_ref h. objects (snd (enrich_all lib h rs)) r = objects h r)
   \<and> (\<forall>r\<in>set (fst (enrich_all lib h rs)). next_ref h \<le> r)"
proof (induction rs arbitrary: h)
  case Nil
  then show ?case by simp
next
  case (Cons r rs)
  let ?h1 = "snd (alloc_object h (enrich lib (objects h r)))"
  have n1: "next_ref ?h1 = Suc (next_ref h)"
    by (simp add: store_simps)
  from Cons.IH [of ?h1] show ?case
    by (auto simp: Let_def case_prod_beta store_simps n1)
qed

lemma enrichGpuData_frame:
  "unchanged_below (next_ref h) h (snd (enrichGpuData lib h data))
   \<and> next_ref h \<le> fst (enrichGpuData lib h data)
   \<and> (\<forall>r\<in>set (arrays (snd (enrichGpuData lib h data)) (fst (enrichGpuData lib h data))).
        next_ref h \<le> r)"
proof -
  let ?h1 = "snd (alloc_array h [])"
  have n1: "next_ref ?h1 = Suc (next_ref h)"
    by (simp add: store_simps)
  from enrich_all_frame [of ?h1 lib "arrays ?h1 data"] show ?thesis
    by (auto simp: enrichGpuData_def unchanged_below_def Let_def case_prod_beta store_simps n1
        intro: Suc_leD)
qed

lemma enrich_all_objects:
  "(\<forall>r\<in>set rs. r < next_ref h) \<Longrightarrow>
   map (objects (snd (enrich_all lib h rs))) (fst (enrich_all lib h rs))
     = map (\<lambda>r. enrich lib (objects h r)) rs"
proof (induction rs arbitrary: h)
  case Nil
  then show ?case by simp
next
  case (Cons r rs)
  let ?h1 = "snd (alloc_object h (enrich lib (objects h r)))"
  have n1: "next_ref ?h1 = Suc (next_ref h)"
    by (simp add: store_simps)
  have old: "objects ?h1 q = objects h q" if "q < next_ref h" for q
    using that by (simp add: store_simps)
  have new: "objects (snd (enrich_all lib ?h1 rs)) (next_ref h) = enrich lib (objects h r)"
    using enrich_all_frame [of ?h1 lib rs] by (simp add: n1 store_simps)
  have "map (objects (snd (enrich_all lib ?h1 rs))) (fst (enrich_all lib ?h1 rs))
      = map (\<lambda>r. enrich lib (objects ?h1 r)) rs"
    using Cons.prems by (intro Cons.IH) (simp add: n1 less_Suc_eq)
  also have "\<dots> = map (\<lambda>r. enrich lib (objects h r)) rs"
    using Cons.prems by (intro map_cong) (simp_all add: old)
  finally show ?case
    using new by (simp add: Let_def case_prod_beta store_simps)
qed

lemma enrichGpuData_objects:
  assumes "\<forall>r\<in>set (arrays h data). r < next_ref h" and "data < next_ref h"
  shows "map (objects (snd (enrichGpuData lib h data)))
           (arrays (snd (enrichGpuData lib h data)) (fst (enrichGpuData lib h data)))
         = map (\<lambda>r. enrich lib (objects h r)) (arrays h data)"
proof -
  let ?h1 = "snd (alloc_array h [])"
  have a: "arrays ?h1 data = arrays h data"
    using assms(2) by (simp add: store_simps)
  have "map (objects (snd (enrich_all lib ?h1 (arrays h data))))
          (fst (enrich_all lib ?h1 (arrays h data)))
        = map (\<lambda>r. enrich lib (objects ?h1 r)) (arrays h data)"
    using assms(1) by (intro enrich_all_objects) (simp add: store_simps less_Suc_eq)
  then show ?thesis
    using assms(2) by (simp add: enrichGpuData_def Let_def case_prod_beta store_simps a)
qed

lemma compare_efficiency_a_b:
  "js_gt (sortCompare (\<lambda>x y. compareGpus (Some ''efficiency'') (objects example_store x)
      (objects example_store y)) 0 1) (js_nat 0)"
  by (simp add: sortCompare_def compareGpus_def metrics_prop_simps gpuMetrics_def example_store_def
      gpu_a_def gpu_b_def js_eval)

text \<open>
  Claim C9.  \<open>applyFilters\<close> changes no record and no array that exists before the call, for
  every store, every array \<open>gpus\<close> and every state of the controls: it sorts the copy it
  allocates.  \<open>enrichGpuData\<close> changes none either: the records of its result are new objects.
  (\<open>applyFilters_store_refines\<close> and \<open>enrichGpuData_objects\<close> above say what the new arrays
  hold.)
\<close>

theorem rank_leaves_inputs_unchanged:
  "unchanged_below (next_ref h) h (snd (applyFilters_store lib h gpus ui))
   \<and> objects (snd (applyFilters_store lib h gpus ui)) = objects h
   \<and> unchanged_below (next_ref hj) hj (snd (enrichGpuData lib hj data))
   \<and> (\<forall>r\<in>set (arrays (snd (enrichGpuData lib hj data)) (fst (enrichGpuData lib hj data))).
        next_ref hj \<le> r)"
  using applyFilters_store_frame [of lib h gpus ui] enrichGpuData_frame [of hj lib data]
  by (simp add: unchanged_below_def)

theorem rank_leaves_inputs_unchanged_witness:
  "(2::nat) < next_ref example_store
   \<and> arrays (snd (applyFilters_store example_lib example_store 2 efficiency_controls)) 2 = [0, 1]
   \<and> objects (snd (applyFilters_store example_lib example_store 2 efficiency_controls)) 0 = gpu_a
   \<and> arrays (snd (applyFilters_store example_lib example_store 2 efficiency_controls))
        (fst (applyFilters_store example_lib example_store 2 efficiency_controls)) = [1, 0]
   \<and> objects (snd (enrichGpuData example_lib example_obj_store 2)) 0 = obj_a
   \<and> arrays (snd (enrichGpuData example_lib example_obj_store 2)) 2 = [0, 1]
   \<and> arrays (snd (enrichGpuData example_lib example_obj_store 2))
        (fst (enrichGpuData example_lib example_obj_store 2)) = [4, 5]"
proof -
  note t = rank_leaves_inputs_unchanged [where h = example_store and gpus = 2
      and ui = efficiency_controls and hj = example_obj_store and lib = example_lib
      and data = 2, unfolded unchanged_below_def]
  have n: "next_ref example_store = 3" "next_ref example_obj_store = 3"
    by (simp_all add: example_store_def example_obj_store_def)
  have 1: "arrays (snd (applyFilters_store example_lib example_store 2 efficiency_controls)) 2 = [0, 1]"
    using t n by (simp add: example_store_def)
  have 2: "objects (snd (applyFilters_store example_lib example_store 2 efficiency_controls)) 0 = gpu_a"
    using t by (simp add: example_store_def)
  have 3: "arrays (snd (applyFilters_store example_lib example_store 2 efficiency_controls))
        (fst (applyFilters_store example_lib example_store 2 efficiency_controls)) = [1, 0]"
    using compare_efficiency_a_b
    by (simp add: applyFilters_store_def efficiency_controls_def Let_def case_prod_beta
        store_simps array_sort_def n)
      (simp add: example_store_def)
  have 4: "objects (snd (enrichGpuData example_lib example_obj_store 2)) 0 = obj_a"
    "arrays (snd (enrichGpuData example_lib example_obj_store 2)) 2 = [0, 1]"
    using t n by (simp_all add: example_obj_store_def)
  have 5: "arrays (snd (enrichGpuData example_lib example_obj_store 2))
        (fst (enrichGpuData example_lib example_obj_store 2)) = [4, 5]"
    by (simp add: enrichGpuData_def Let_def case_prod_beta store_simps n)
      (simp add: example_obj_store_def Let_def case_prod_beta store_simps)
  show ?thesis
    using 1 2 3 4 5 n by simp
qed

section \<open>The sort keys that do order\<close>

text \<open>
  Rounding keeps the sign of a sum: the difference of two finite numbers is positive exactly
  when the first is the greater one.  So for \<open>efficiency\<close>, \<open>roi\<close> and \<open>bestValue\<close>, whose
  comparators subtract metrics that exist, the comparator agrees with the order of the keys
  as long as no key is \<open>NaN\<close>, and the result is sorted.
\<close>

lemma bits_pos: "0 < p \<Longrightarrow> 0 < bits p"
  by (subst bits.simps) simp

lemma bits_lower: "0 < p \<Longrightarrow> 2 ^ (bits p - 1) \<le> p"
proof (induction p rule: bits.induct)
  case (1 n)
  show ?case
  proof (cases "n div 2 = 0")
    case True
    with "1.prems" have "n = 1" by (simp add: div_eq_0_iff)
    then show ?thesis by simp
  next
    case False
    then have pos: "0 < n div 2" by simp
    with "1.IH" "1.prems" have ih: "2 ^ (bits (n div 2) - 1) \<le> n div 2" by simp
    have b: "bits n = Suc (bits (n div 2))"
      using "1.prems" by (subst bits.simps) simp
    have "(2::nat) ^ (bits n - 1) = 2 * 2 ^ (bits (n div 2) - 1)"
      using bits_pos [OF pos] b by (cases "bits (n div 2)") simp_all
    also have "\<dots> \<le> 2 * (n div 2)" using ih by simp
    also have "\<dots> \<le> n" by simp
    finally show ?thesis .
  qed
qed

lemma round_half_even_ge: "num div den \<le> round_half_even num den"
  by (simp add: round_half_even_def Let_def)

lemma round_half_even_1: "round_half_even num 1 = num"
  by (simp add: round_half_even_def)

lemma floor_log2_1: "0 < p \<Longrightarrow> floor_log2 p 1 = int (bits p) - 1"
  using bits_lower [of p] bits_pos [of p]
  by (simp add: floor_log2_def Let_def nat_diff_distrib')

lemma round_mag_int_pos:
  assumes "0 < p" "0 \<le> e"
  shows "case round_mag p 1 e of None \<Rightarrow> True | Some (m, k) \<Rightarrow> 0 < m"
proof -
  define l where "l = int (bits p) - 1 + e"
  define k where "k = (if 52 < l then l - 52 else 0)"
  define m where "m = (if 0 \<le> e - k then round_half_even (p * 2 ^ nat (e - k)) 1
               else round_half_even p (1 * 2 ^ nat (- (e - k))))"
  have rm: "round_mag p 1 e = (if 2098 < bits m + nat k then None
         else if m = 2 ^ 53 then Some (2 ^ 52, nat k + 1)
         else Some (m, nat k))"
    by (simp only: round_mag_def floor_log2_1 [OF assms(1)] Let_def l_def k_def m_def)
  have "0 < m"
  proof (cases "0 \<le> e - k")
    case True
    then have "m = p * 2 ^ nat (e - k)"
      by (simp only: m_def round_half_even_1 if_True)
    then show ?thesis using assms(1) by simp
  next
    case False
    have k: "k = l - 52"
      using False assms(2) by (simp add: k_def split: if_splits)
    have "nat (- (e - k)) = bits p - 1 - 52"
      unfolding k l_def by simp
    moreover have "m = round_half_even p (2 ^ nat (- (e - k)))"
      using False by (simp only: m_def if_False mult_1)
    ultimately have m: "m = round_half_even p (2 ^ (bits p - 1 - 52))"
      by simp
    have "(2::nat) ^ (bits p - 1 - 52) \<le> 2 ^ (bits p - 1)"
      by (rule power_increasing) simp_all
    also have "\<dots> \<le> p" using assms(1) by (rule bits_lower)
    finally have "0 < p div 2 ^ (bits p - 1 - 52)"
      by (simp add: div_greater_zero_iff)
    also have "\<dots> \<le> round_half_even p (2 ^ (bits p - 1 - 52))"
      by (rule round_half_even_ge)
    finally show ?thesis unfolding m .
  qed
  then show ?thesis unfolding rm by simp
qed

lemma mk_sign:
  assumes "case r of None \<Rightarrow> True | Some (m, k) \<Rightarrow> 0 < m"
  shows "mk s r = js_inf s \<or> (\<exists>m k. mk s r = Fin s m k \<and> 0 < m)"
  using assms by (auto simp: mk_def split: option.splits)

lemma sign_of_mk:
  assumes "case r of None \<Rightarrow> True | Some (m, k) \<Rightarrow> 0 < m"
  shows "sign_of (mk s r) = (if s then - 1 else 1)"
  using mk_sign [OF assms, of s] by (auto simp: sign_of_def js_inf_def signed_def)

lemma js_add_Fin_sign:
  "sign_of (js_add (Fin s1 m1 k1) (Fin s2 m2 k2)) = sgn (ival (Fin s1 m1 k1) + ival (Fin s2 m2 k2))"
proof -
  let ?k = "min k1 k2"
  let ?n = "signed s1 m1 * 2 ^ (k1 - ?k) + signed s2 m2 * 2 ^ (k2 - ?k)"
  have n: "ival (Fin s1 m1 k1) + ival (Fin s2 m2 k2) = ?n * 2 ^ ?k"
    by (simp add: distrib_right mult.assoc flip: power_add)
  have sgn_n: "sgn (ival (Fin s1 m1 k1) + ival (Fin s2 m2 k2)) = sgn ?n"
    unfolding n by (simp add: sgn_mult)
  show ?thesis
  proof (cases "m1 = 0 \<or> m2 = 0")
    case True
    then show ?thesis
      by (auto simp: sign_of_def signed_def sgn_mult)
  next
    case False
    show ?thesis
    proof (cases "?n = 0")
      case True
      with False sgn_n show ?thesis by (simp add: sign_of_def Let_def signed_def)
    next
      case nz: False
      then have "0 < nat \<bar>?n\<bar>" by simp
      then have "case round_mag (nat \<bar>?n\<bar>) 1 (int ?k) of None \<Rightarrow> True | Some (m, k) \<Rightarrow> 0 < m"
        by (rule round_mag_int_pos) simp
      then have "sign_of (mk (?n < 0) (round_mag (nat \<bar>?n\<bar>) 1 (int ?k))) = (if ?n < 0 then - 1 else 1)"
        by (rule sign_of_mk)
      with False nz sgn_n show ?thesis
        by (simp add: Let_def sgn_if)
    qed
  qed
qed

lemma ival_js_neg: "ival (js_neg (Fin s m k)) = - ival (Fin s m k)"
  by (simp add: signed_def)

lemma js_gt_zero_sign: "js_gt x (js_nat 0) \<longleftrightarrow> sign_of x = 1"
proof (cases x)
  case (Fin s m k)
  then show ?thesis
    by (cases s) (auto simp: js_gt_def js_nat_def sign_of_def signed_def Let_def
        zero_less_mult_iff mult_less_0_iff sgn_if)
qed (simp_all add: js_gt_def js_nat_def sign_of_def)

lemma js_sub_gt_zero:
  assumes "a \<noteq> NaN" "b \<noteq> NaN"
  shows "js_gt (js_sub a b) (js_nat 0) \<longleftrightarrow> js_lt b a"
proof (cases a; cases b)
  fix s1 m1 k1 s2 m2 k2
  assume ab: "a = Fin s1 m1 k1" "b = Fin s2 m2 k2"
  have "sign_of (js_sub a b) = sgn (ival a - ival b)"
    unfolding ab js_sub_def js_neg.simps js_add_Fin_sign
    by (simp add: signed_def)
  then show ?thesis
    unfolding js_gt_zero_sign ab js_lt_Fin by (simp add: sgn_if)
qed (use assms in \<open>simp_all add: js_sub_def js_gt_def js_nat_def\<close>)

lemma js_lt_neg_trans:
  assumes "a \<noteq> NaN" "b \<noteq> NaN" "c \<noteq> NaN" "\<not> js_lt a b" "\<not> js_lt b c"
  shows "\<not> js_lt a c"
proof (cases a; cases b; cases c)
  fix s1 m1 k1 s2 m2 k2 s3 m3 k3
  assume "a = Fin s1 m1 k1" "b = Fin s2 m2 k2" "c = Fin s3 m3 k3"
  with assms show ?thesis
    by (simp add: js_lt_Fin del: js_lt.simps ival.simps)
qed (use assms in simp_all)

lemma insert_by_set: "set (insert_by c x ys) = insert x (set ys)"
  by (induction ys) auto

lemma sorted_insert_by:
  assumes asym: "\<And>u v. P u \<Longrightarrow> P v \<Longrightarrow> after u v \<Longrightarrow> \<not> after v u"
    and ntrans: "\<And>u v w. P u \<Longrightarrow> P v \<Longrightarrow> P w \<Longrightarrow> \<not> after u v \<Longrightarrow> \<not> after v w \<Longrightarrow> \<not> after u w"
    and after: "\<And>u v. after u v = js_gt (sortCompare c u v) (js_nat 0)"
    and "P x" "\<forall>y\<in>set ys. P y" "sorted_wrt (\<lambda>u v. \<not> after u v) ys"
  shows "sorted_wrt (\<lambda>u v. \<not> after u v) (insert_by c x ys)"
  using assms(4-)
proof (induction ys)
  case Nil
  then show ?case by simp
next
  case (Cons y ys)
  have Px: "P x" and Py: "P y" and Pys: "\<forall>z\<in>set ys. P z"
    using Cons.prems by simp_all
  have head: "\<forall>z\<in>set ys. \<not> after y z" and tail: "sorted_wrt (\<lambda>u v. \<not> after u v) ys"
    using Cons.prems(3) by simp_all
  show ?case
  proof (cases "after x y")
    case True
    have step: "insert_by c x (y # ys) = y # insert_by c x ys"
      using True by (simp add: after)
    have "\<not> after y x"
      using asym [OF Px Py True] .
    with head have "\<forall>z\<in>set (insert_by c x ys). \<not> after y z"
      by (simp add: insert_by_set)
    moreover have "sorted_wrt (\<lambda>u v. \<not> after u v) (insert_by c x ys)"
      using Px Pys tail by (rule Cons.IH)
    ultimately show ?thesis
      unfolding step by simp
  next
    case False
    have step: "insert_by c x (y # ys) = x # y # ys"
      using False by (simp add: after)
    have "\<not> after x z" if "z \<in> set ys" for z
    proof -
      have "P z" "\<not> after y z" using that Pys head by simp_all
      with ntrans [OF Px Py _ False] show ?thesis by blast
    qed
    with False head tail show ?thesis
      unfolding step by simp
  qed
qed

lemma sorted_array_sort:
  assumes asym: "\<And>u v. P u \<Longrightarrow> P v \<Longrightarrow> after u v \<Longrightarrow> \<not> after v u"
    and ntrans: "\<And>u v w. P u \<Longrightarrow> P v \<Longrightarrow> P w \<Longrightarrow> \<not> after u v \<Longrightarrow> \<not> after v w \<Longrightarrow> \<not> after u w"
    and after: "\<And>u v. after u v = js_gt (sortCompare c u v) (js_nat 0)"
    and "\<forall>y\<in>set xs. P y"
  shows "sorted_wrt (\<lambda>u v. \<not> after u v) (array_sort c xs)"
  using assms(4)
proof (induction xs)
  case Nil
  then show ?case by (simp add: array_sort_def)
next
  case (Cons x xs)
  have "sorted_wrt (\<lambda>u v. \<not> after u v) (insert_by c x (array_sort c xs))"
  proof (rule sorted_insert_by [where P = P and after = after and c = c])
    show "\<And>u v. P u \<Longrightarrow> P v \<Longrightarrow> after u v \<Longrightarrow> \<not> after v u"
      by (rule asym)
    show "\<And>u v w. P u \<Longrightarrow> P v \<Longrightarrow> P w \<Longrightarrow> \<not> after u v \<Longrightarrow> \<not> after v w \<Longrightarrow> \<not> after u w"
      by (rule ntrans)
    show "\<And>u v. after u v = js_gt (sortCompare c u v) (js_nat 0)"
      by (rule after)
    show "P x" "\<forall>y\<in>set (array_sort c xs). P y"
      using Cons.prems by (simp_all add: set_array_sort)
    show "sorted_wrt (\<lambda>u v. \<not> after u v) (array_sort c xs)"
      using Cons by simp
  qed
  then show ?case by (simp add: array_sort_def)
qed

lemma js_lt_NaN_right [simp]: "js_lt x NaN = False"
  by (cases x) simp_all

lemma js_add_NaN_right [simp]: "js_add x NaN = NaN"
  by (cases x) simp_all

lemma js_sub_NaN: "a = NaN \<or> b = NaN \<Longrightarrow> js_sub a b = NaN"
  by (auto simp: js_sub_def)

lemma sortCompare_gt_zero:
  "js_gt (sortCompare c x y) (js_nat 0) \<longleftrightarrow> js_gt (c x y) (js_nat 0)"
  by (simp add: sortCompare_def Let_def js_gt_def js_nat_def)

lemma sorted_by_key_ascending:
  assumes c: "\<And>x y. c x y = js_sub (key x) (key y)"
    and keys: "\<forall>x\<in>set xs. key x \<noteq> NaN"
  shows "sorted_wrt (\<lambda>x y. \<not> js_lt (key y) (key x)) (array_sort c xs)"
proof (rule sorted_array_sort [where P = "\<lambda>x. key x \<noteq> NaN" and c = c])
  show "\<And>u v. key u \<noteq> NaN \<Longrightarrow> key v \<noteq> NaN \<Longrightarrow> js_lt (key v) (key u) \<Longrightarrow>
      \<not> js_lt (key u) (key v)"
    by (rule js_lt_asym)
  show "\<And>u v w. key u \<noteq> NaN \<Longrightarrow> key v \<noteq> NaN \<Longrightarrow> key w \<noteq> NaN \<Longrightarrow>
      \<not> js_lt (key v) (key u) \<Longrightarrow> \<not> js_lt (key w) (key v) \<Longrightarrow> \<not> js_lt (key w) (key u)"
    by (rule js_lt_neg_trans)
  show "\<And>u v. js_lt (key v) (key u) = js_gt (sortCompare c u v) (js_nat 0)"
  proof -
    fix u v
    show "js_lt (key v) (key u) = js_gt (sortCompare c u v) (js_nat 0)"
    proof (cases "key u = NaN \<or> key v = NaN")
      case True
      then have "js_sub (key u) (key v) = NaN" "js_sub (key v) (key u) = NaN"
        by (auto intro: js_sub_NaN)
      with True show ?thesis
        unfolding sortCompare_gt_zero c by (auto simp: js_gt_def)
    next
      case False
      then show ?thesis
        by (simp add: sortCompare_gt_zero c js_sub_gt_zero)
    qed
  qed
  show "\<forall>y\<in>set xs. key y \<noteq> NaN"
    by (rule keys)
qed

lemma sorted_by_key_descending:
  assumes c: "\<And>x y. c x y = js_sub (key y) (key x)"
    and keys: "\<forall>x\<in>set xs. key x \<noteq> NaN"
  shows "sorted_wrt (\<lambda>x y. \<not> js_lt (key x) (key y)) (array_sort c xs)"
proof (rule sorted_array_sort [where P = "\<lambda>x. key x \<noteq> NaN" and c = c])
  show "\<And>u v. key u \<noteq> NaN \<Longrightarrow> key v \<noteq> NaN \<Longrightarrow> js_lt (key u) (key v) \<Longrightarrow>
      \<not> js_lt (key v) (key u)"
    by (rule js_lt_asym)
  show "\<And>u v w. key u \<noteq> NaN \<Longrightarrow> key v \<noteq> NaN \<Longrightarrow> key w \<noteq> NaN \<Longrightarrow>
      \<not> js_lt (key u) (key v) \<Longrightarrow> \<not> js_lt (key v) (key w) \<Longrightarrow> \<not> js_lt (key u) (key w)"
    by (rule js_lt_neg_trans)
  show "\<And>u v. js_lt (key u) (key v) = js_gt (sortCompare c u v) (js_nat 0)"
  proof -
    fix u v
    show "js_lt (key u) (key v) = js_gt (sortCompare c u v) (js_nat 0)"
    proof (cases "key u = NaN \<or> key v = NaN")
      case True
      then have "js_sub (key u) (key v) = NaN" "js_sub (key v) (key u) = NaN"
        by (auto intro: js_sub_NaN)
      with True show ?thesis
        unfolding sortCompare_gt_zero c by (auto simp: js_gt_def)
    next
      case False
      then show ?thesis
        by (simp add: sortCompare_gt_zero c js_sub_gt_zero)
    qed
  qed
  show "\<forall>y\<in>set xs. key y \<noteq> NaN"
    by (rule keys)
qed

lemma applyFilters_sorted_roi:
  assumes "sortSelect ui = Some ''roi''"
    and "\<forall>g\<in>set (filterGpus lib gpus ui). roiDays (gpuMetrics g) \<noteq> NaN"
  shows "sorted_wrt (\<lambda>x y. \<not> js_lt (roiDays (gpuMetrics y)) (roiDays (gpuMetrics x)))
           (applyFilters lib gpus ui)"
  unfolding applyFilters_def Let_def assms(1)
  by (rule sorted_by_key_ascending [where key = "\<lambda>g. roiDays (gpuMetrics g)"])
    (simp_all add: compareGpus_def metrics_prop_simps toNumber_def assms(2))

lemma applyFilters_sorted_efficiency:
  assumes "sortSelect ui = Some ''efficiency''"
    and "\<forall>g\<in>set (filterGpus lib gpus ui). efficiency (gpuMetrics g) \<noteq> NaN"
  shows "sorted_wrt (\<lambda>x y. \<not> js_lt (efficiency (gpuMetrics x)) (efficiency (gpuMetrics y)))
           (applyFilters lib gpus ui)"
  unfolding applyFilters_def Let_def assms(1)
  by (rule sorted_by_key_descending [where key = "\<lambda>g. efficiency (gpuMetrics g)"])
    (simp_all add: compareGpus_def metrics_prop_simps toNumber_def assms(2))

lemma applyFilters_sorted_score:
  assumes "sortSelect ui \<notin> {Some ''hashrate'', Some ''efficiency'', Some ''price'', Some ''roi''}"
    and "\<forall>g\<in>set (filterGpus lib gpus ui). score (gpuMetrics g) \<noteq> NaN"
  shows "sorted_wrt (\<lambda>x y. \<not> js_lt (score (gpuMetrics x)) (score (gpuMetrics y)))
           (applyFilters lib gpus ui)"
  unfolding applyFilters_def Let_def
  by (rule sorted_by_key_descending [where key = "\<lambda>g. score (gpuMetrics g)"])
    (use assms in \<open>simp_all add: compareGpus_def metrics_prop_simps toNumber_def\<close>)

lemma roi_finite_before_infinite:
  assumes "sortSelect ui = Some ''roi''"
    and "\<forall>g\<in>set (filterGpus lib gpus ui). roiDays (gpuMetrics g) \<noteq> NaN"
    and "i < j" "j < length (applyFilters lib gpus ui)"
    and "roiDays (gpuMetrics (applyFilters lib gpus ui ! i)) = PInf"
  shows "roiDays (gpuMetrics (applyFilters lib gpus ui ! j)) = PInf"
proof -
  have "\<not> js_lt (roiDays (gpuMetrics (applyFilters lib gpus ui ! j)))
      (roiDays (gpuMetrics (applyFilters lib gpus ui ! i)))"
    using applyFilters_sorted_roi [OF assms(1,2)] assms(3,4)
    by (simp add: sorted_wrt_iff_nth_less)
  moreover have "roiDays (gpuMetrics (applyFilters lib gpus ui ! j)) \<noteq> NaN"
    using assms(2,4) by (metis applyFilters_def nth_mem set_array_sort)
  ultimately show ?thesis
    unfolding assms(5) by (cases "roiDays (gpuMetrics (applyFilters lib gpus ui ! j))") simp_all
qed

subsection \<open>Stability\<close>

text \<open>
  For a comparison function that is consistent on the elements of the array, the stable sort
  of the array is unique (\<open>stable_sort_of_unique\<close>), \<open>array_sort\<close> computes it
  (\<open>array_sort_stable_sort\<close>) and so does the sort of V8 (\<open>v8_sort_stable_sort\<close>): the two
  agree (\<open>v8_sort_consistent\<close>).  The comparison function of \<open>applyFilters\<close> is consistent on
  records whose sort keys are numbers (\<open>compareGpus_consistent\<close>).  It is not consistent on
  records of which one has the key \<open>NaN\<close>: that record compares equal to every other, also to
  two that do not compare equal.
\<close>

lemma binarySearch_done:
  "\<not> left < right \<Longrightarrow> binarySearch c p ws left right = left"
  by (subst binarySearch.simps) simp

lemma binarySearch_lower:
  "left < right \<Longrightarrow> js_lt (sortCompare c p (ws ! (left + (right - left) div 2))) (js_nat 0)
   \<Longrightarrow> binarySearch c p ws left right = binarySearch c p ws left (left + (right - left) div 2)"
  by (subst binarySearch.simps) (simp add: Let_def)

lemma binarySearch_upper:
  "left < right \<Longrightarrow> \<not> js_lt (sortCompare c p (ws ! (left + (right - left) div 2))) (js_nat 0)
   \<Longrightarrow> binarySearch c p ws left right =
       binarySearch c p ws (left + (right - left) div 2 + 1) right"
  by (subst binarySearch.simps) (simp add: Let_def)

lemma consistent_pair:
  assumes "consistent_on c S" "x \<in> S" "y \<in> S"
  shows "(comes_before c x y \<longleftrightarrow> comes_after c y x)
     \<and> \<not> (comes_after c x y \<and> comes_after c y x)"
proof -
  have "\<forall>x\<in>S. \<forall>y\<in>S. (comes_before c x y \<longleftrightarrow> comes_after c y x)
      \<and> \<not> (comes_after c x y \<and> comes_after c y x)"
    using assms(1) unfolding consistent_on_def by (rule conjunct1)
  then show ?thesis
    using assms(2,3) by blast
qed

lemma consistent_dual:
  "consistent_on c S \<Longrightarrow> x \<in> S \<Longrightarrow> y \<in> S \<Longrightarrow> comes_before c x y \<longleftrightarrow> comes_after c y x"
  using consistent_pair [of c S x y] by blast

lemma consistent_asym:
  "consistent_on c S \<Longrightarrow> x \<in> S \<Longrightarrow> y \<in> S \<Longrightarrow> comes_after c x y \<Longrightarrow> \<not> comes_after c y x"
  using consistent_pair [of c S x y] by blast

lemma consistent_refl: "consistent_on c S \<Longrightarrow> x \<in> S \<Longrightarrow> \<not> comes_after c x x"
  using consistent_pair [of c S x x] by blast

lemma consistent_trans:
  assumes "consistent_on c S" "x \<in> S" "y \<in> S" "z \<in> S"
    "\<not> comes_after c x y" "\<not> comes_after c y z"
  shows "\<not> comes_after c x z"
proof -
  have "\<forall>x\<in>S. \<forall>y\<in>S. \<forall>z\<in>S.
      \<not> comes_after c x y \<and> \<not> comes_after c y z \<longrightarrow> \<not> comes_after c x z"
    using assms(1) unfolding consistent_on_def by (rule conjunct2)
  then show ?thesis
    using assms(2-) by blast
qed

lemma consistent_after_trans:
  assumes "consistent_on c S" "x \<in> S" "y \<in> S" "z \<in> S" "comes_after c x y" "comes_after c y z"
  shows "comes_after c x z"
proof (rule ccontr)
  assume n: "\<not> comes_after c x z"
  have "\<not> comes_after c z y"
    using assms(1,3,4,6) by (rule consistent_asym)
  with n have "\<not> comes_after c x y"
    by (rule consistent_trans [OF assms(1,2,4,3)])
  with assms(5) show False by simp
qed

lemma consistent_subset:
  assumes "consistent_on c S" "T \<subseteq> S"
  shows "consistent_on c T"
  unfolding consistent_on_def
proof (intro conjI ballI impI)
  fix x y assume "x \<in> T" "y \<in> T"
  then have xy: "x \<in> S" "y \<in> S" using assms(2) by auto
  show "comes_before c x y \<longleftrightarrow> comes_after c y x"
    using assms(1) xy by (rule consistent_dual)
  show "\<not> (comes_after c x y \<and> comes_after c y x)"
    using consistent_asym [OF assms(1) xy] by blast
next
  fix x y z assume "x \<in> T" "y \<in> T" "z \<in> T"
  then have xyz: "x \<in> S" "y \<in> S" "z \<in> S" using assms(2) by auto
  assume "\<not> comes_after c x y \<and> \<not> comes_after c y z"
  then show "\<not> comes_after c x z"
    using consistent_trans [OF assms(1) xyz] by blast
qed

lemma same_rank_refl:
  assumes "consistent_on c S" "x \<in> S"
  shows "same_rank c x x"
  unfolding same_rank_def using consistent_refl [OF assms] by simp

lemma stable_sorted_unique:
  assumes "mset ys = mset zs" "sorted_wrt le ys" "sorted_wrt le zs"
    and "\<And>k. k \<in> set ys \<Longrightarrow> filter (\<lambda>x. le k x \<and> le x k) ys = filter (\<lambda>x. le k x \<and> le x k) zs"
    and "\<And>x. x \<in> set ys \<Longrightarrow> le x x"
  shows "ys = zs"
  using assms
proof (induction ys arbitrary: zs)
  case Nil
  then show ?case by simp
next
  case (Cons y ys)
  then obtain z zs' where zs: "zs = z # zs'"
    by (cases zs) auto
  have sets: "set (y # ys) = set (z # zs')"
    using mset_eq_setD [OF Cons.prems(1)] unfolding zs .
  have yz: "y = z"
  proof (rule ccontr)
    assume ne: "y \<noteq> z"
    have "y \<in> set zs'"
      using sets ne by auto
    then have 1: "le z y"
      using Cons.prems(3) zs by simp
    have "z \<in> set ys"
      using sets ne by auto
    then have 2: "le y z"
      using Cons.prems(2) by simp
    have 3: "le y y"
      using Cons.prems(5) by simp
    have "filter (\<lambda>x. le y x \<and> le x y) (y # ys) = filter (\<lambda>x. le y x \<and> le x y) (z # zs')"
      unfolding zs [symmetric] by (rule Cons.prems(4)) simp
    with 1 2 3 have "y = z"
      by simp
    with ne show False by simp
  qed
  have "ys = zs'"
  proof (rule Cons.IH)
    show "mset ys = mset zs'"
      using Cons.prems(1) zs yz by simp
    show "sorted_wrt le ys"
      using Cons.prems(2) by simp
    show "sorted_wrt le zs'"
      using Cons.prems(3) zs by simp
    show "filter (\<lambda>x. le k x \<and> le x k) ys = filter (\<lambda>x. le k x \<and> le x k) zs'" if "k \<in> set ys" for k
    proof -
      have "filter (\<lambda>x. le k x \<and> le x k) (y # ys) = filter (\<lambda>x. le k x \<and> le x k) zs"
        by (rule Cons.prems(4)) (simp add: that)
      then show ?thesis
        unfolding zs using yz by (simp split: if_splits)
    qed
    show "le x x" if "x \<in> set ys" for x
      using Cons.prems(5) that by simp
  qed
  with yz zs show ?case by simp
qed

lemma same_rank_fun: "same_rank c k = (\<lambda>x. \<not> comes_after c k x \<and> \<not> comes_after c x k)"
  by (simp add: fun_eq_iff same_rank_def)

lemma stable_sort_of_set: "stable_sort_of c xs ys \<Longrightarrow> set ys = set xs"
  unfolding stable_sort_of_def using mset_eq_setD [of ys xs] by blast

lemma stable_sort_of_unique:
  assumes cons: "consistent_on c (set xs)"
    and ys: "stable_sort_of c xs ys" and zs: "stable_sort_of c xs zs"
  shows "ys = zs"
proof (rule stable_sorted_unique [where le = "\<lambda>x y. \<not> comes_after c x y"])
  note set_ys = stable_sort_of_set [OF ys]
  show "mset ys = mset zs"
    using ys zs unfolding stable_sort_of_def by simp
  show "sorted_wrt (\<lambda>x y. \<not> comes_after c x y) ys"
    using ys unfolding stable_sort_of_def by blast
  show "sorted_wrt (\<lambda>x y. \<not> comes_after c x y) zs"
    using zs unfolding stable_sort_of_def by blast
  show "filter (\<lambda>x. \<not> comes_after c k x \<and> \<not> comes_after c x k) ys =
      filter (\<lambda>x. \<not> comes_after c k x \<and> \<not> comes_after c x k) zs" if "k \<in> set ys" for k
  proof -
    have k: "k \<in> set xs"
      using that set_ys by simp
    have "filter (same_rank c k) ys = filter (same_rank c k) xs"
      using ys k unfolding stable_sort_of_def by blast
    moreover have "filter (same_rank c k) zs = filter (same_rank c k) xs"
      using zs k unfolding stable_sort_of_def by blast
    ultimately show ?thesis
      unfolding same_rank_fun by (rule trans_sym)
  qed
  show "\<not> comes_after c x x" if "x \<in> set ys" for x
    using cons by (rule consistent_refl) (use that set_ys in simp)
qed

lemma same_rank_sym: "same_rank c x y \<Longrightarrow> same_rank c y x"
  unfolding same_rank_def by simp

lemma same_rank_trans:
  assumes "consistent_on c S" "x \<in> S" "y \<in> S" "z \<in> S" "same_rank c x y" "same_rank c y z"
  shows "same_rank c x z"
proof -
  have "\<not> comes_after c x z"
    using assms(5,6) unfolding same_rank_def
    by (intro consistent_trans [OF assms(1,2,3,4)]) simp_all
  moreover have "\<not> comes_after c z x"
    using assms(5,6) unfolding same_rank_def
    by (intro consistent_trans [OF assms(1,4,3,2)]) simp_all
  ultimately show ?thesis
    unfolding same_rank_def by simp
qed

lemma stable_sort_of_filter:
  assumes cons: "consistent_on c S" and S: "set xs \<subseteq> S" "k \<in> S"
    and ss: "stable_sort_of c xs ys"
  shows "filter (same_rank c k) ys = filter (same_rank c k) xs"
proof (cases "\<exists>x\<in>set xs. same_rank c k x")
  case True
  then obtain x where x: "x \<in> set xs" "same_rank c k x"
    by blast
  have xS: "x \<in> S"
    using x(1) S(1) by blast
  have eq: "same_rank c k y = same_rank c x y" if "y \<in> set xs" for y
  proof
    have yS: "y \<in> S" using that S(1) by blast
    show "same_rank c x y" if "same_rank c k y"
      using cons xS S(2) yS same_rank_sym [OF x(2)] that by (rule same_rank_trans)
    show "same_rank c k y" if "same_rank c x y"
      using cons S(2) xS yS x(2) that by (rule same_rank_trans)
  qed
  have "filter (same_rank c k) ys = filter (same_rank c x) ys"
    by (rule filter_cong) (simp_all add: eq stable_sort_of_set [OF ss])
  also have "\<dots> = filter (same_rank c x) xs"
    using ss x(1) unfolding stable_sort_of_def by blast
  also have "\<dots> = filter (same_rank c k) xs"
    by (rule filter_cong) (simp_all add: eq)
  finally show ?thesis .
next
  case False
  then have "filter (same_rank c k) xs = []" "filter (same_rank c k) ys = []"
    by (simp_all add: filter_empty_conv stable_sort_of_set [OF ss])
  then show ?thesis by simp
qed

lemma array_sort_stable_sort:
  assumes cons: "consistent_on c (set xs)"
  shows "stable_sort_of c xs (array_sort c xs)"
  unfolding stable_sort_of_def
proof (intro conjI ballI)
  show "mset (array_sort c xs) = mset xs"
    by (rule mset_array_sort)
  show "sorted_wrt (\<lambda>x y. \<not> comes_after c x y) (array_sort c xs)"
  proof (rule sorted_array_sort [where P = "\<lambda>x. x \<in> set xs" and c = c])
    show "\<And>u v. u \<in> set xs \<Longrightarrow> v \<in> set xs \<Longrightarrow> comes_after c u v \<Longrightarrow> \<not> comes_after c v u"
      using cons by (rule consistent_asym)
    show "\<And>u v w. u \<in> set xs \<Longrightarrow> v \<in> set xs \<Longrightarrow> w \<in> set xs \<Longrightarrow>
        \<not> comes_after c u v \<Longrightarrow> \<not> comes_after c v w \<Longrightarrow> \<not> comes_after c u w"
      using cons by (rule consistent_trans)
    show "\<And>u v. comes_after c u v = js_gt (sortCompare c u v) (js_nat 0)"
      by (simp add: comes_after_def)
    show "\<forall>y\<in>set xs. y \<in> set xs"
      by simp
  qed
  fix k assume k: "k \<in> set xs"
  let ?Q = "\<lambda>x. x \<in> set xs \<and> same_rank c k x"
  have "filter ?Q (array_sort c xs) = filter ?Q xs"
  proof (rule array_sort_stable)
    fix x y assume "?Q x" "?Q y"
    then have xy: "x \<in> set xs" "y \<in> set xs" and r: "\<not> comes_after c x k" "\<not> comes_after c k y"
      by (simp_all add: same_rank_def)
    have "\<not> comes_after c x y"
      using cons xy(1) k xy(2) r by (rule consistent_trans)
    then show "\<not> js_gt (sortCompare c x y) (js_nat 0)"
      by (simp add: comes_after_def)
  qed
  moreover have "filter ?Q (array_sort c xs) = filter (same_rank c k) (array_sort c xs)"
    by (rule filter_cong) (simp_all add: set_array_sort)
  moreover have "filter ?Q xs = filter (same_rank c k) xs"
    by (rule filter_cong) simp_all
  ultimately show "filter (same_rank c k) (array_sort c xs) = filter (same_rank c k) xs"
    by simp
qed

lemma run_rest_le: "run_rest c d prev rest \<le> length rest"
proof (induction rest arbitrary: prev)
  case Nil
  then show ?case by simp
next
  case (Cons cur rest)
  show ?case
    using Cons [of cur] by (cases d) (simp_all add: Let_def)
qed

lemma run_rest_sorted:
  assumes R_trans: "\<And>u v w. u \<in> S \<Longrightarrow> v \<in> S \<Longrightarrow> w \<in> S \<Longrightarrow> R u v \<Longrightarrow> R v w \<Longrightarrow> R u w"
    and step: "\<And>cur prev. cur \<in> S \<Longrightarrow> prev \<in> S \<Longrightarrow>
        (if d then \<not> js_le (js_nat 0) (sortCompare c cur prev)
         else \<not> js_lt (sortCompare c cur prev) (js_nat 0)) \<Longrightarrow> R prev cur"
    and "prev \<in> S" "set rest \<subseteq> S"
  shows "sorted_wrt R (prev # take (run_rest c d prev rest) rest)"
  using assms(3,4)
proof (induction rest arbitrary: prev)
  case Nil
  then show ?case by simp
next
  case (Cons cur rest)
  let ?go = "if d then \<not> js_le (js_nat 0) (sortCompare c cur prev)
         else \<not> js_lt (sortCompare c cur prev) (js_nat 0)"
  show ?case
  proof (cases ?go)
    case False
    then have "run_rest c d prev (cur # rest) = 0"
      by (simp add: Let_def split: if_splits)
    then show ?thesis by simp
  next
    case True
    then have n: "run_rest c d prev (cur # rest) = Suc (run_rest c d cur rest)"
      by (simp add: Let_def split: if_splits)
    have cur: "cur \<in> S" and rest: "set rest \<subseteq> S"
      using Cons.prems(2) by simp_all
    have ih: "sorted_wrt R (cur # take (run_rest c d cur rest) rest)"
      using cur rest by (rule Cons.IH)
    have pc: "R prev cur"
      using cur Cons.prems(1) True by (rule step)
    have "R prev x" if "x \<in> set (take (run_rest c d cur rest) rest)" for x
    proof -
      have "x \<in> S"
        using that rest by (meson in_set_takeD subsetD)
      moreover have "R cur x"
        using ih that by simp
      ultimately show ?thesis
        using R_trans [OF Cons.prems(1) cur _ pc] by blast
    qed
    with pc ih show ?thesis
      unfolding n by simp
  qed
qed

lemma sortCompare_not_NaN: "sortCompare c x y \<noteq> NaN"
  by (simp add: sortCompare_def Let_def js_nat_def)

lemma not_le_zero: "\<not> js_le (js_nat 0) (sortCompare c x y) \<longleftrightarrow> comes_before c x y"
  using sortCompare_not_NaN [of c x y] by (simp add: js_le_def js_nat_def comes_before_def)

lemma filter_rev_strict:
  assumes "sorted_wrt R xs"
    and "\<And>x y. x \<in> set xs \<Longrightarrow> y \<in> set xs \<Longrightarrow> Q x \<Longrightarrow> Q y \<Longrightarrow> \<not> R x y"
  shows "filter Q (rev xs) = filter Q xs"
proof -
  have "length (filter Q xs) \<le> 1"
    using assms
  proof (induction xs)
    case Nil
    then show ?case by simp
  next
    case (Cons x xs)
    show ?case
    proof (cases "Q x")
      case True
      have "\<not> Q y" if "y \<in> set xs" for y
      proof
        assume "Q y"
        moreover have "R x y" using Cons.prems(1) that by simp
        ultimately show False
          using Cons.prems(2) [of x y] True that by simp
      qed
      then have "filter Q xs = []"
        by (simp add: filter_empty_conv)
      with True show ?thesis by simp
    next
      case False
      have "length (filter Q xs) \<le> 1"
        using Cons.prems by (intro Cons.IH) simp_all
      with False show ?thesis by simp
    qed
  qed
  then have "rev (filter Q xs) = filter Q xs"
    by (cases "filter Q xs") simp_all
  then show ?thesis
    by (simp add: rev_filter)
qed

lemma stable_sort_of_self:
  "sorted_wrt (\<lambda>x y. \<not> comes_after c x y) xs \<Longrightarrow> stable_sort_of c xs xs"
  unfolding stable_sort_of_def by simp

lemma countAndMakeRun_prefix:
  assumes cons: "consistent_on c (set xs)" and len: "2 \<le> length xs"
  shows "fst (countAndMakeRun c xs) \<le> length xs
     \<and> sorted_prefix c xs (fst (countAndMakeRun c xs)) (snd (countAndMakeRun c xs))"
proof -
  obtain x0 x1 rest where xs: "xs = x0 # x1 # rest"
    using len by (cases xs; cases "tl xs") auto
  define d where "d = js_lt (sortCompare c x1 x0) (js_nat 0)"
  define r where "r = 2 + run_rest c d x1 rest"
  let ?S = "set xs"
  have x0: "x0 \<in> ?S" and x1: "x1 \<in> ?S" and rest: "set (x1 # rest) \<subseteq> ?S"
    unfolding xs by auto
  have r_le: "r \<le> length xs"
    using run_rest_le [of c d x1 rest] unfolding r_def xs by simp
  have n1: "run_rest c d x0 (x1 # rest) = Suc (run_rest c d x1 rest)"
    by (cases d) (simp_all add: Let_def not_le_zero comes_before_def d_def)
  have run: "take r xs = x0 # take (run_rest c d x0 (x1 # rest)) (x1 # rest)"
    unfolding n1 r_def xs by simp
  have run_S: "set (take r xs) \<subseteq> ?S"
    by (rule set_take_subset)
  show ?thesis
  proof (cases d)
    case False
    have cm: "countAndMakeRun c xs = (r, xs)"
      using False unfolding countAndMakeRun_def xs r_def d_def by (simp add: Let_def)
    have "sorted_wrt (\<lambda>x y. \<not> comes_after c x y) (take r xs)"
      unfolding run
    proof (rule run_rest_sorted [where S = ?S])
      show "\<And>u v w. u \<in> ?S \<Longrightarrow> v \<in> ?S \<Longrightarrow> w \<in> ?S \<Longrightarrow>
          \<not> comes_after c u v \<Longrightarrow> \<not> comes_after c v w \<Longrightarrow> \<not> comes_after c u w"
        using cons by (rule consistent_trans)
      show "\<not> comes_after c prev cur"
        if "cur \<in> ?S" "prev \<in> ?S"
          "if d then \<not> js_le (js_nat 0) (sortCompare c cur prev)
           else \<not> js_lt (sortCompare c cur prev) (js_nat 0)" for cur prev
      proof -
        have "\<not> comes_before c cur prev"
          using that(3) False by (simp add: comes_before_def)
        then show ?thesis
          using consistent_dual [OF cons that(1,2)] by simp
      qed
      show "x0 \<in> ?S" by (rule x0)
      show "set (x1 # rest) \<subseteq> ?S" by (rule rest)
    qed
    then have "stable_sort_of c (take r xs) (take r xs)"
      by (rule stable_sort_of_self)
    then show ?thesis
      unfolding cm sorted_prefix_def using r_le by simp
  next
    case True
    have cm: "countAndMakeRun c xs = (r, rev (take r xs) @ drop r xs)"
      using True unfolding countAndMakeRun_def xs r_def d_def by (simp add: Let_def)
    have len_run: "length (rev (take r xs)) = r"
      using r_le by simp
    have tk: "take r (rev (take r xs) @ drop r xs) = rev (take r xs)"
      using len_run by simp
    have dr: "drop r (rev (take r xs) @ drop r xs) = drop r xs"
      using len_run by simp
    have desc: "sorted_wrt (comes_after c) (take r xs)"
      unfolding run
    proof (rule run_rest_sorted [where S = ?S])
      show "\<And>u v w. u \<in> ?S \<Longrightarrow> v \<in> ?S \<Longrightarrow> w \<in> ?S \<Longrightarrow>
          comes_after c u v \<Longrightarrow> comes_after c v w \<Longrightarrow> comes_after c u w"
        using cons by (rule consistent_after_trans)
      show "comes_after c prev cur"
        if "cur \<in> ?S" "prev \<in> ?S"
          "if d then \<not> js_le (js_nat 0) (sortCompare c cur prev)
           else \<not> js_lt (sortCompare c cur prev) (js_nat 0)" for cur prev
      proof -
        have "comes_before c cur prev"
          using that(3) True by (simp add: not_le_zero)
        then show ?thesis
          using consistent_dual [OF cons that(1,2)] by simp
      qed
      show "x0 \<in> ?S" by (rule x0)
      show "set (x1 # rest) \<subseteq> ?S" by (rule rest)
    qed
    have asc: "sorted_wrt (\<lambda>x y. \<not> comes_after c x y) (rev (take r xs))"
      unfolding sorted_wrt_rev
    proof (rule sorted_wrt_mono_rel [OF _ desc])
      fix x y assume "x \<in> set (take r xs)" "y \<in> set (take r xs)" "comes_after c x y"
      then show "\<not> comes_after c y x"
        using run_S consistent_asym [OF cons, of x y] by blast
    qed
    have stab: "filter (same_rank c k) (rev (take r xs)) = filter (same_rank c k) (take r xs)"
      if "k \<in> set (take r xs)" for k
    proof (rule filter_rev_strict [OF desc])
      fix x y assume xy: "x \<in> set (take r xs)" "y \<in> set (take r xs)"
        and "same_rank c k x" "same_rank c k y"
      then have "\<not> comes_after c x k" "\<not> comes_after c k y"
        by (simp_all add: same_rank_def)
      moreover have "x \<in> ?S" "k \<in> ?S" "y \<in> ?S"
        using xy that run_S by blast+
      ultimately show "\<not> comes_after c x y"
        using consistent_trans [OF cons, of x k y] by blast
    qed
    have "stable_sort_of c (take r xs) (rev (take r xs))"
      unfolding stable_sort_of_def using asc stab by simp
    then show ?thesis
      unfolding cm sorted_prefix_def fst_conv snd_conv tk dr using r_le by simp
  qed
qed

lemma binarySearch_spec:
  assumes cons: "consistent_on c S"
    and p: "p \<in> S" and ws: "\<And>i. i < n \<Longrightarrow> ws ! i \<in> S"
    and sorted: "\<And>i j. i < j \<Longrightarrow> j < n \<Longrightarrow> \<not> comes_after c (ws ! i) (ws ! j)"
    and inv: "left \<le> right" "right \<le> n"
      "\<forall>i<left. \<not> comes_before c p (ws ! i)"
      "\<forall>i. right \<le> i \<and> i < n \<longrightarrow> comes_before c p (ws ! i)"
  shows "binarySearch c p ws left right \<le> n
     \<and> (\<forall>i<binarySearch c p ws left right. \<not> comes_before c p (ws ! i))
     \<and> (\<forall>i. binarySearch c p ws left right \<le> i \<and> i < n \<longrightarrow> comes_before c p (ws ! i))"
  using inv
proof (induction "right - left" arbitrary: left right rule: less_induct)
  case less
  show ?case
  proof (cases "left < right")
    case False
    then have b: "binarySearch c p ws left right = left" and lr: "left = right"
      using less.prems(1) by (simp_all add: binarySearch_done)
    show ?thesis
      unfolding b using less.prems lr by simp
  next
    case True
    define mid where "mid = left + (right - left) div 2"
    have mid: "left \<le> mid" "mid < right"
      using True unfolding mid_def by simp_all
    then have mid_n: "mid < n"
      using less.prems(2) by simp
    show ?thesis
    proof (cases "comes_before c p (ws ! mid)")
      case before: True
      have b: "binarySearch c p ws left right = binarySearch c p ws left mid"
        using True before unfolding mid_def comes_before_def by (rule binarySearch_lower)
      have hi: "\<forall>i. mid \<le> i \<and> i < n \<longrightarrow> comes_before c p (ws ! i)"
      proof (intro allI impI)
        fix i assume i: "mid \<le> i \<and> i < n"
        show "comes_before c p (ws ! i)"
        proof (cases "i = mid")
          case True
          with before show ?thesis by simp
        next
          case False
          with i have "mid < i" "i < n" by simp_all
          then have le: "\<not> comes_after c (ws ! mid) (ws ! i)"
            by (rule sorted)
          have S: "ws ! mid \<in> S" "ws ! i \<in> S"
            using ws mid_n i by simp_all
          have "comes_after c (ws ! mid) p"
            using before consistent_dual [OF cons p S(1)] by simp
          have "comes_after c (ws ! i) p"
          proof (rule ccontr)
            assume "\<not> comes_after c (ws ! i) p"
            with le have "\<not> comes_after c (ws ! mid) p"
              by (rule consistent_trans [OF cons S(1) S(2) p])
            with \<open>comes_after c (ws ! mid) p\<close> show False by simp
          qed
          then show ?thesis
            using consistent_dual [OF cons p S(2)] by simp
        qed
      qed
      have "mid - left < right - left"
        using mid by simp
      then show ?thesis
        unfolding b using mid(1) mid_n less.prems(3) hi
        by (intro less.hyps) simp_all
    next
      case notbefore: False
      have b: "binarySearch c p ws left right = binarySearch c p ws (mid + 1) right"
        using True notbefore unfolding mid_def comes_before_def by (rule binarySearch_upper)
      have lo: "\<forall>i<mid + 1. \<not> comes_before c p (ws ! i)"
      proof (intro allI impI)
        fix i assume i: "i < mid + 1"
        show "\<not> comes_before c p (ws ! i)"
        proof (cases "i = mid")
          case True
          with notbefore show ?thesis by simp
        next
          case False
          with i have im: "i < mid" by simp
          then have le: "\<not> comes_after c (ws ! i) (ws ! mid)"
            using mid_n by (rule sorted)
          have S: "ws ! mid \<in> S" "ws ! i \<in> S"
            using ws mid_n im by simp_all
          have "\<not> comes_after c (ws ! mid) p"
            using notbefore consistent_dual [OF cons p S(1)] by simp
          with le have "\<not> comes_after c (ws ! i) p"
            by (rule consistent_trans [OF cons S(2) S(1) p])
          then show ?thesis
            using consistent_dual [OF cons p S(2)] by simp
        qed
      qed
      have "right - (mid + 1) < right - left"
        using mid by simp
      then show ?thesis
        unfolding b using mid(2) less.prems(2,4) lo
        by (intro less.hyps) simp_all
    qed
  qed
qed

lemma insert_at_stable:
  assumes cons: "consistent_on c S" and S: "set orig \<subseteq> S" "p \<in> S"
    and ss: "stable_sort_of c orig pre"
    and lo: "\<forall>x\<in>set (take b pre). \<not> comes_before c p x"
    and hi: "\<forall>x\<in>set (drop b pre). comes_before c p x"
  shows "stable_sort_of c (orig @ [p]) (take b pre @ p # drop b pre)"
proof -
  let ?le = "\<lambda>x y. \<not> comes_after c x y"
  have set_pre: "set pre = set orig"
    using ss by (rule stable_sort_of_set)
  have take_S: "x \<in> S" if "x \<in> set (take b pre)" for x
  proof -
    have "x \<in> set pre"
      using that by (rule in_set_takeD)
    then show ?thesis
      using set_pre S(1) by auto
  qed
  have drop_S: "x \<in> S" if "x \<in> set (drop b pre)" for x
  proof -
    have "x \<in> set pre"
      using that by (rule in_set_dropD)
    then show ?thesis
      using set_pre S(1) by auto
  qed
  have lo': "\<not> comes_after c x p" if "x \<in> set (take b pre)" for x
    using lo that consistent_dual [OF cons S(2) take_S [OF that]] by simp
  have hi': "comes_after c x p" if "x \<in> set (drop b pre)" for x
    using hi that consistent_dual [OF cons S(2) drop_S [OF that]] by simp
  have hi'': "\<not> comes_after c p x" if "x \<in> set (drop b pre)" for x
    using consistent_asym [OF cons drop_S [OF that] S(2) hi' [OF that]] .
  have "sorted_wrt ?le (take b pre @ drop b pre)"
    using ss unfolding stable_sort_of_def by simp
  then have sorted_parts: "sorted_wrt ?le (take b pre)" "sorted_wrt ?le (drop b pre)"
    "\<forall>x\<in>set (take b pre). \<forall>y\<in>set (drop b pre). \<not> comes_after c x y"
    unfolding sorted_wrt_append by simp_all
  have 1: "mset (take b pre @ p # drop b pre) = mset (orig @ [p])"
  proof -
    have "mset (take b pre @ drop b pre) = mset pre"
      by (simp only: append_take_drop_id)
    then have "mset (take b pre) + mset (drop b pre) = mset pre"
      by (simp only: mset_append)
    also have "\<dots> = mset orig"
      using ss unfolding stable_sort_of_def by blast
    finally show ?thesis by simp
  qed
  have 2: "sorted_wrt ?le (take b pre @ p # drop b pre)"
    unfolding sorted_wrt_append using sorted_parts lo' hi'' by auto
  have 3: "filter (same_rank c k) (take b pre @ p # drop b pre) =
      filter (same_rank c k) (orig @ [p])" if "k \<in> set (orig @ [p])" for k
  proof -
    have k: "k \<in> S"
      using that S by auto
    have "filter (same_rank c k) pre = filter (same_rank c k) orig"
      using cons S(1) k ss by (rule stable_sort_of_filter)
    then have pre: "filter (same_rank c k) (take b pre) @ filter (same_rank c k) (drop b pre) =
        filter (same_rank c k) orig"
      by (simp flip: filter_append)
    show ?thesis
    proof (cases "same_rank c k p")
      case True
      have "\<not> same_rank c k y" if "y \<in> set (drop b pre)" for y
      proof
        assume "same_rank c k y"
        with same_rank_sym [OF True] have "same_rank c p y"
          by (rule same_rank_trans [OF cons S(2) k drop_S [OF that]])
        then show False
          using hi' [OF that] by (simp add: same_rank_def)
      qed
      then have "filter (same_rank c k) (drop b pre) = []"
        by (simp add: filter_empty_conv)
      with pre True show ?thesis by simp
    next
      case False
      with pre show ?thesis by simp
    qed
  qed
  show ?thesis
    unfolding stable_sort_of_def using 1 2 3 by blast
qed

lemma insertPivot_step:
  assumes cons: "consistent_on c (set xs)"
    and m: "m < length xs"
    and inv: "sorted_prefix c xs m ws"
  shows "sorted_prefix c xs (Suc m) (insertPivot c ws m)"
proof -
  let ?S = "set xs"
  have len: "length ws = length xs" and dr: "drop m ws = drop m xs"
    and ss: "stable_sort_of c (take m xs) (take m ws)"
    using inv unfolding sorted_prefix_def by simp_all
  define p where "p = ws ! m"
  define b where "b = binarySearch c p ws 0 m"
  define pre where "pre = take m ws"
  have p_xs: "p = xs ! m"
    using m len arg_cong [OF dr, of hd] unfolding p_def by (simp add: hd_drop_conv_nth)
  have p: "p \<in> ?S"
    unfolding p_xs using m by simp
  have orig_S: "set (take m xs) \<subseteq> ?S"
    by (rule set_take_subset)
  have set_pre: "set pre = set (take m xs)"
    unfolding pre_def using ss by (rule stable_sort_of_set)
  have nth_pre: "pre ! i = ws ! i" if "i < m" for i
    unfolding pre_def using that by simp
  have len_pre: "length pre = m"
    unfolding pre_def using m len by simp
  have ws_S: "ws ! i \<in> ?S" if "i < m" for i
  proof -
    have "pre ! i \<in> set pre"
      using that len_pre by simp
    then show ?thesis
      using nth_pre [OF that] set_pre orig_S by auto
  qed
  have sorted: "\<not> comes_after c (ws ! i) (ws ! j)" if "i < j" "j < m" for i j
  proof -
    have "sorted_wrt (\<lambda>x y. \<not> comes_after c x y) pre"
      using ss unfolding stable_sort_of_def pre_def by simp
    then have "\<not> comes_after c (pre ! i) (pre ! j)"
      using that len_pre by (simp add: sorted_wrt_iff_nth_less)
    then show ?thesis
      using that by (simp add: nth_pre)
  qed
  have spec: "b \<le> m \<and> (\<forall>i<b. \<not> comes_before c p (ws ! i))
      \<and> (\<forall>i. b \<le> i \<and> i < m \<longrightarrow> comes_before c p (ws ! i))"
    unfolding b_def
    by (rule binarySearch_spec [OF cons p ws_S sorted]) auto
  then have b: "b \<le> m" by simp
  have lo: "\<forall>x\<in>set (take b pre). \<not> comes_before c p x"
  proof
    fix x assume "x \<in> set (take b pre)"
    then obtain i where i: "i < b" "x = pre ! i"
      using b len_pre by (auto simp: in_set_conv_nth)
    then show "\<not> comes_before c p x"
      using spec b by (simp add: nth_pre)
  qed
  have hi: "\<forall>x\<in>set (drop b pre). comes_before c p x"
  proof
    fix x assume "x \<in> set (drop b pre)"
    then obtain j where j: "j < length (drop b pre)" "x = drop b pre ! j"
      by (auto simp: in_set_conv_nth)
    define i where "i = b + j"
    have i: "b \<le> i" "i < m" "x = pre ! i"
      using j b len_pre unfolding i_def by simp_all
    then show "comes_before c p x"
      using spec by (simp add: nth_pre)
  qed
  define A where "A = take b pre @ p # drop b pre"
  have ins: "insertPivot c ws m = A @ drop (Suc m) ws"
    unfolding insertPivot_def Let_def p_def [symmetric] b_def [symmetric] pre_def A_def
    using b by (simp add: min_absorb1)
  have len_ins: "length A = Suc m"
    unfolding A_def using b len_pre by simp
  have tk: "take (Suc m) (insertPivot c ws m) = A"
    unfolding ins using len_ins by simp
  have dr': "drop (Suc m) (insertPivot c ws m) = drop (Suc m) xs"
  proof -
    have "drop (Suc m) (insertPivot c ws m) = drop (Suc m) ws"
      unfolding ins using len_ins by simp
    also have "\<dots> = drop 1 (drop m ws)"
      by simp
    also have "\<dots> = drop (Suc m) xs"
      unfolding dr by simp
    finally show ?thesis .
  qed
  have len': "length (insertPivot c ws m) = length xs"
    unfolding ins using len_ins len m by simp
  have "stable_sort_of c (take m xs @ [p]) A"
    unfolding A_def using cons orig_S p ss [folded pre_def] lo hi by (rule insert_at_stable)
  then have "stable_sort_of c (take (Suc m) xs) (take (Suc m) (insertPivot c ws m))"
    unfolding tk p_xs using m by (simp add: take_Suc_conv_app_nth)
  then show ?thesis
    unfolding sorted_prefix_def using len' dr' by simp
qed

lemma binaryInsertionSort_prefix:
  assumes cons: "consistent_on c (set xs)"
    and "r \<le> h" "h \<le> length xs" "sorted_prefix c xs r ws"
  shows "sorted_prefix c xs h (binaryInsertionSort c ws r h)"
  using assms(2,3)
proof (induction h rule: dec_induct)
  case base
  then show ?case
    using assms(4) by (simp add: binaryInsertionSort_def)
next
  case (step h)
  have "sorted_prefix c xs h (binaryInsertionSort c ws r h)"
    using step by simp
  then have "sorted_prefix c xs (Suc h) (insertPivot c (binaryInsertionSort c ws r h) h)"
    using cons step.prems by (intro insertPivot_step) simp_all
  moreover have "binaryInsertionSort c ws r (Suc h) =
      insertPivot c (binaryInsertionSort c ws r h) h"
    using step.hyps(1) by (simp add: binaryInsertionSort_def)
  ultimately show ?case by simp
qed

lemma v8_sort_stable_sort:
  assumes cons: "consistent_on c (set xs)"
  shows "stable_sort_of c xs (v8_sort c xs)"
proof (cases "length xs < 2")
  case True
  then have "sorted_wrt (\<lambda>x y. \<not> comes_after c x y) xs"
    by (cases xs; cases "tl xs") simp_all
  then have "stable_sort_of c xs xs"
    by (rule stable_sort_of_self)
  with True show ?thesis
    by (simp add: v8_sort_def)
next
  case False
  then have len: "2 \<le> length xs" by simp
  note run = countAndMakeRun_prefix [OF cons len]
  have v8: "v8_sort c xs =
      binaryInsertionSort c (snd (countAndMakeRun c xs)) (fst (countAndMakeRun c xs)) (length xs)"
    using False by (simp add: v8_sort_def case_prod_beta)
  have "sorted_prefix c xs (length xs) (v8_sort c xs)"
    unfolding v8 using cons run by (intro binaryInsertionSort_prefix) simp_all
  then have l: "length (v8_sort c xs) = length xs"
    and s: "stable_sort_of c (take (length xs) xs) (take (length xs) (v8_sort c xs))"
    unfolding sorted_prefix_def by blast+
  have t: "take (length xs) (v8_sort c xs) = v8_sort c xs"
    by (rule take_all) (simp add: l)
  show ?thesis
    using s unfolding t by simp
qed

lemma v8_sort_consistent:
  assumes "consistent_on c (set xs)"
  shows "v8_sort c xs = array_sort c xs"
  using assms v8_sort_stable_sort [OF assms] array_sort_stable_sort [OF assms]
  by (rule stable_sort_of_unique)

lemma js_lt_zero_sign: "js_lt x (js_nat 0) \<longleftrightarrow> sign_of x = - 1"
proof (cases x)
  case (Fin s m k)
  then show ?thesis
    by (cases s) (auto simp: js_nat_def sign_of_def signed_def Let_def
        zero_less_mult_iff mult_less_0_iff sgn_if)
qed (simp_all add: js_nat_def sign_of_def)

lemma js_sub_lt_zero:
  assumes "a \<noteq> NaN" "b \<noteq> NaN"
  shows "js_lt (js_sub a b) (js_nat 0) \<longleftrightarrow> js_lt a b"
proof (cases a; cases b)
  fix s1 m1 k1 s2 m2 k2
  assume ab: "a = Fin s1 m1 k1" "b = Fin s2 m2 k2"
  have "sign_of (js_sub a b) = sgn (ival a - ival b)"
    unfolding ab js_sub_def js_neg.simps js_add_Fin_sign
    by (simp add: signed_def)
  then show ?thesis
    unfolding js_lt_zero_sign ab js_lt_Fin by (simp add: sgn_if)
qed (use assms in \<open>simp_all add: js_sub_def js_nat_def\<close>)

lemma sortCompare_lt_zero:
  "js_lt (sortCompare c x y) (js_nat 0) \<longleftrightarrow> js_lt (c x y) (js_nat 0)"
  by (simp add: sortCompare_def Let_def js_nat_def)

lemma comes_after_compareGpus:
  assumes "spec_sort_key sortValue x \<noteq> NaN" "spec_sort_key sortValue y \<noteq> NaN"
  shows "comes_after (compareGpus sortValue) x y \<longleftrightarrow>
     (if sortValue = Some ''hashrate'' \<or> sortValue = Some ''price'' then False
      else if sortValue = Some ''roi'' then js_lt (spec_sort_key sortValue y) (spec_sort_key sortValue x)
      else js_lt (spec_sort_key sortValue x) (spec_sort_key sortValue y))"
proof -
  have "\<not> js_gt NaN (js_nat 0)"
    by (simp add: js_gt_def js_nat_def)
  then show ?thesis
    unfolding comes_after_def sortCompare_gt_zero compareGpus_sort_key
    using js_sub_gt_zero [OF assms] js_sub_gt_zero [OF assms(2,1)] by auto
qed

lemma comes_before_compareGpus:
  assumes "spec_sort_key sortValue x \<noteq> NaN" "spec_sort_key sortValue y \<noteq> NaN"
  shows "comes_before (compareGpus sortValue) x y \<longleftrightarrow>
     (if sortValue = Some ''hashrate'' \<or> sortValue = Some ''price'' then False
      else if sortValue = Some ''roi'' then js_lt (spec_sort_key sortValue x) (spec_sort_key sortValue y)
      else js_lt (spec_sort_key sortValue y) (spec_sort_key sortValue x))"
proof -
  have "\<not> js_lt NaN (js_nat 0)"
    by (simp add: js_nat_def)
  then show ?thesis
    unfolding comes_before_def sortCompare_lt_zero compareGpus_sort_key
    using js_sub_lt_zero [OF assms] js_sub_lt_zero [OF assms(2,1)] by auto
qed

lemma compareGpus_consistent:
  assumes keys: "\<forall>g\<in>S. spec_sort_key sortValue g \<noteq> NaN"
  shows "consistent_on (compareGpus sortValue) S"
  unfolding consistent_on_def
proof (intro conjI ballI impI)
  fix x y assume "x \<in> S" "y \<in> S"
  then have k: "spec_sort_key sortValue x \<noteq> NaN" "spec_sort_key sortValue y \<noteq> NaN"
    using keys by simp_all
  show "comes_before (compareGpus sortValue) x y \<longleftrightarrow> comes_after (compareGpus sortValue) y x"
    unfolding comes_before_compareGpus [OF k] comes_after_compareGpus [OF k(2,1)] by simp
  show "\<not> (comes_after (compareGpus sortValue) x y \<and> comes_after (compareGpus sortValue) y x)"
    unfolding comes_after_compareGpus [OF k] comes_after_compareGpus [OF k(2,1)]
    using js_lt_asym by auto
next
  fix x y z assume "x \<in> S" "y \<in> S" "z \<in> S"
  then have k: "spec_sort_key sortValue x \<noteq> NaN" "spec_sort_key sortValue y \<noteq> NaN"
    "spec_sort_key sortValue z \<noteq> NaN"
    using keys by simp_all
  assume "\<not> comes_after (compareGpus sortValue) x y \<and> \<not> comes_after (compareGpus sortValue) y z"
  then show "\<not> comes_after (compareGpus sortValue) x z"
    unfolding comes_after_compareGpus [OF k(1,2)] comes_after_compareGpus [OF k(2,3)]
      comes_after_compareGpus [OF k(1,3)]
    using js_lt_neg_trans [OF k(1,2,3)] js_lt_neg_trans [OF k(3,2,1)]
    by (simp only: split: if_splits) blast+
qed

lemma applyFilters_v8_consistent:
  assumes "\<forall>g\<in>set (filterGpus lib gpus ui). spec_sort_key (sortSelect ui) g \<noteq> NaN"
  shows "applyFilters_v8 lib gpus ui = applyFilters lib gpus ui"
  unfolding applyFilters_v8_def applyFilters_def Let_def
  using assms by (intro v8_sort_consistent compareGpus_consistent)

lemma score_values:
  "score (gpuMetrics example_gpu_no_power) = NaN"
  "score (gpuMetrics example_gpu_no_profit) = Fin True 6755399441055745 1029"
  "score (gpuMetrics gpu_a) = Fin False 5685794529555252 1028"
  "score (gpuMetrics gpu_b) = Fin False 5685794529555252 1029"
  "score (gpuMetrics gpu_c) = Fin False 5685794529555252 1028"
  by (simp_all add: example_gpu_no_power_metrics example_gpu_no_profit_metrics)
    (simp_all add: gpuMetrics_def gpu_a_def gpu_b_def gpu_c_def js_eval)

lemma compare_scores:
  "sortCompare (compareGpus None) x example_gpu_no_power = js_nat 0"
  "sortCompare (compareGpus None) example_gpu_no_power x = js_nat 0"
  "js_lt (sortCompare (compareGpus None) gpu_b gpu_a) (js_nat 0)"
  "js_lt (sortCompare (compareGpus None) gpu_b example_gpu_no_profit) (js_nat 0)"
  "js_lt (sortCompare (compareGpus None) gpu_c example_gpu_no_profit) (js_nat 0)"
  "\<not> js_lt (sortCompare (compareGpus None) gpu_c gpu_b) (js_nat 0)"
  "\<not> js_gt (sortCompare (compareGpus None) gpu_b gpu_c) (js_nat 0)"
  "js_gt (sortCompare (compareGpus None) gpu_a gpu_b) (js_nat 0)"
  "\<not> js_gt (sortCompare (compareGpus None) gpu_a gpu_c) (js_nat 0)"
  by (simp_all add: sortCompare_def compareGpus_def metrics_prop_simps score_values js_eval)

lemma same_score_as_gpu_a:
  "\<not> same_number (spec_sort_key None example_gpu_no_power) (score (gpuMetrics gpu_a))"
  "\<not> same_number (spec_sort_key None example_gpu_no_profit) (score (gpuMetrics gpu_a))"
  "same_number (spec_sort_key None gpu_a) (score (gpuMetrics gpu_a))"
  "\<not> same_number (spec_sort_key None gpu_b) (score (gpuMetrics gpu_a))"
  "same_number (spec_sort_key None gpu_c) (score (gpuMetrics gpu_a))"
  by (simp_all add: spec_sort_key_def score_values same_number_def signed_def)

text \<open>
  Claim C6, as stated, is about every input.  A record without \<open>power\<close> has the score \<open>NaN\<close>,
  and the comparison function is then not consistent, so that ECMAScript leaves the order to
  the engine.  On the seven records below V8 returns \<open>gpu_c\<close> before \<open>gpu_a\<close>, which have the
  same score and are in the input in the other order: the first five records are taken as a
  run, since \<open>NaN\<close> compares equal to everything, and the binary search for the place of
  \<open>gpu_c\<close> then never meets \<open>gpu_a\<close>.
\<close>

theorem missing_power_sort_counterexample:
  "applyFilters_v8 example_lib
     [example_gpu_no_power, example_gpu_no_power, example_gpu_no_profit, example_gpu_no_power,
      gpu_a, gpu_b, gpu_c] no_controls =
     [example_gpu_no_power, example_gpu_no_power, gpu_b, gpu_c, example_gpu_no_profit,
      example_gpu_no_power, gpu_a]
   \<and> gpu_a \<noteq> gpu_c
   \<and> filter (\<lambda>g. same_number (spec_sort_key (sortSelect no_controls) g) (score (gpuMetrics gpu_a)))
       (filterGpus example_lib
         [example_gpu_no_power, example_gpu_no_power, example_gpu_no_profit,
          example_gpu_no_power, gpu_a, gpu_b, gpu_c] no_controls) = [gpu_a, gpu_c]
   \<and> filter (\<lambda>g. same_number (spec_sort_key (sortSelect no_controls) g) (score (gpuMetrics gpu_a)))
       (applyFilters_v8 example_lib
         [example_gpu_no_power, example_gpu_no_power, example_gpu_no_profit,
          example_gpu_no_power, gpu_a, gpu_b, gpu_c] no_controls) = [gpu_c, gpu_a]"
proof -
  let ?c = "compareGpus None"
  let ?N = example_gpu_no_power
  let ?Z = example_gpu_no_profit
  have z: "\<not> js_lt (js_nat 0) (js_nat 0)"
    by (simp add: js_nat_def)
  have run: "countAndMakeRun ?c [?N, ?N, ?Z, ?N, gpu_a, gpu_b, gpu_c] =
      (5, [?N, ?N, ?Z, ?N, gpu_a, gpu_b, gpu_c])"
    by (simp add: countAndMakeRun_def compare_scores z)
  have b1: "binarySearch ?c gpu_b [?N, ?N, ?Z, ?N, gpu_a, gpu_b, gpu_c] 0 5 = 2"
    by (simp add: binarySearch_done binarySearch_lower binarySearch_upper compare_scores z)
  have i1: "insertPivot ?c [?N, ?N, ?Z, ?N, gpu_a, gpu_b, gpu_c] 5 =
      [?N, ?N, gpu_b, ?Z, ?N, gpu_a, gpu_c]"
    by (simp add: insertPivot_def b1)
  have b2: "binarySearch ?c gpu_c [?N, ?N, gpu_b, ?Z, ?N, gpu_a, gpu_c] 0 6 = 3"
    by (simp add: binarySearch_done binarySearch_lower binarySearch_upper compare_scores z)
  have i2: "insertPivot ?c [?N, ?N, gpu_b, ?Z, ?N, gpu_a, gpu_c] 6 =
      [?N, ?N, gpu_b, gpu_c, ?Z, ?N, gpu_a]"
    by (simp add: insertPivot_def b2)
  have upt: "[5..<7] = [5, 6::nat]"
    by (simp add: upt_rec)
  have bis: "binaryInsertionSort ?c [?N, ?N, ?Z, ?N, gpu_a, gpu_b, gpu_c] 5 7 =
      [?N, ?N, gpu_b, gpu_c, ?Z, ?N, gpu_a]"
    unfolding binaryInsertionSort_def upt by (simp add: i1 i2)
  have len: "length [?N, ?N, ?Z, ?N, gpu_a, gpu_b, gpu_c] = 7"
    by simp
  have v8: "v8_sort ?c [?N, ?N, ?Z, ?N, gpu_a, gpu_b, gpu_c] =
      [?N, ?N, gpu_b, gpu_c, ?Z, ?N, gpu_a]"
    unfolding v8_sort_def len run by (simp add: bis)
  have f: "filterGpus example_lib [?N, ?N, ?Z, ?N, gpu_a, gpu_b, gpu_c] no_controls =
      [?N, ?N, ?Z, ?N, gpu_a, gpu_b, gpu_c]"
    by (simp add: filterGpus_def no_controls_def)
  have s: "sortSelect no_controls = None"
    by (simp add: no_controls_def)
  have 1: "applyFilters_v8 example_lib [?N, ?N, ?Z, ?N, gpu_a, gpu_b, gpu_c] no_controls =
      [?N, ?N, gpu_b, gpu_c, ?Z, ?N, gpu_a]"
    unfolding applyFilters_v8_def Let_def f s by (rule v8)
  have 2: "gpu_a \<noteq> gpu_c"
    by (simp add: gpu_c_def gpu_a_def)
  show ?thesis
    unfolding 1 f s using 2 by (simp add: same_score_as_gpu_a)
qed

text \<open>
  Claim C6, amended.  When no sort key of a filtered record is \<open>NaN\<close>, the sort is stable,
  for every value of the sort control: the records whose sort key is one given number (\<open>+0\<close>
  and \<open>-0\<close> being the same number) are in the result in the order they have after filtering.
  The result is then the same on every engine that conforms to ECMAScript; for V8 and fewer
  than 64 records this is the second part.
\<close>

theorem applyFilters_stable:
  assumes "\<forall>g\<in>set (filterGpus lib gpus ui). spec_sort_key (sortSelect ui) g \<noteq> NaN"
  shows "filter (\<lambda>g. same_number (spec_sort_key (sortSelect ui) g) k) (applyFilters lib gpus ui) =
       filter (\<lambda>g. same_number (spec_sort_key (sortSelect ui) g) k) (filterGpus lib gpus ui)
     \<and> (length (filterGpus lib gpus ui) < 64 \<longrightarrow>
          applyFilters_v8 lib gpus ui = applyFilters lib gpus ui)"
proof
  show "filter (\<lambda>g. same_number (spec_sort_key (sortSelect ui) g) k) (applyFilters lib gpus ui) =
       filter (\<lambda>g. same_number (spec_sort_key (sortSelect ui) g) k) (filterGpus lib gpus ui)"
    unfolding applyFilters_def Let_def
    by (rule array_sort_stable) (rule compareGpus_same_key)
  show "length (filterGpus lib gpus ui) < 64 \<longrightarrow>
      applyFilters_v8 lib gpus ui = applyFilters lib gpus ui"
    using applyFilters_v8_consistent [OF assms] by simp
qed

theorem applyFilters_stable_witness:
  "spec_sort_key None gpu_a \<noteq> NaN \<and> spec_sort_key None gpu_b \<noteq> NaN
   \<and> spec_sort_key None gpu_c \<noteq> NaN
   \<and> length (filterGpus example_lib [gpu_a, gpu_b, gpu_c] no_controls) < 64
   \<and> filter (\<lambda>g. same_number (spec_sort_key None g) (score (gpuMetrics gpu_a)))
       (applyFilters example_lib [gpu_a, gpu_b, gpu_c] no_controls) = [gpu_a, gpu_c]
   \<and> applyFilters_v8 example_lib [gpu_a, gpu_b, gpu_c] no_controls = [gpu_b, gpu_a, gpu_c]"
proof -
  have k: "spec_sort_key None gpu_a \<noteq> NaN" "spec_sort_key None gpu_b \<noteq> NaN"
    "spec_sort_key None gpu_c \<noteq> NaN"
    by (simp_all add: spec_sort_key_def score_values)
  have f: "filterGpus example_lib [gpu_a, gpu_b, gpu_c] no_controls = [gpu_a, gpu_b, gpu_c]"
    by (simp add: filterGpus_def no_controls_def)
  have s: "sortSelect no_controls = None"
    by (simp add: no_controls_def)
  have m: "applyFilters example_lib [gpu_a, gpu_b, gpu_c] no_controls = [gpu_b, gpu_a, gpu_c]"
    unfolding applyFilters_def Let_def f s by (simp add: array_sort_def compare_scores)
  have h: "\<forall>g\<in>set (filterGpus example_lib [gpu_a, gpu_b, gpu_c] no_controls).
      spec_sort_key (sortSelect no_controls) g \<noteq> NaN"
    unfolding f s using k by simp
  note t = applyFilters_stable [OF h, where k = "score (gpuMetrics gpu_a)"]
  have 1: "filter (\<lambda>g. same_number (spec_sort_key None g) (score (gpuMetrics gpu_a)))
       (applyFilters example_lib [gpu_a, gpu_b, gpu_c] no_controls) = [gpu_a, gpu_c]"
    using t [THEN conjunct1] unfolding f s by (simp add: same_score_as_gpu_a)
  have l: "length (filterGpus example_lib [gpu_a, gpu_b, gpu_c] no_controls) < 64"
    unfolding f by simp
  have 2: "applyFilters_v8 example_lib [gpu_a, gpu_b, gpu_c] no_controls = [gpu_b, gpu_a, gpu_c]"
    using t [THEN conjunct2] l unfolding m by simp
  show ?thesis
    using k l 1 2 by simp
qed

end
